theory Spec2Isabelle
  imports Complex_Main "HOL-Library.Sublist"
begin

text \<open>
  A shallow embedding of \<open>include/extractor/guidance/toolkit.hpp\<close>, the turn-guidance
  toolkit of the routing engine: the roundabout predicates, the lane string trimmer, the
  representative coordinate of an edge and the name-change test, each followed in the
  second half of the theory by the properties proved of it.
\<close>

section \<open>Faults\<close>

text \<open>
  What the C++ can do instead of returning a value: a library exception
  (\<open>std::out_of_range\<close> from \<open>substr\<close> and \<open>compare\<close>), a failed \<open>BOOST_ASSERT\<close>, or
  undefined behaviour (a read past the end of a vector or a string, an iterator moved
  before \<open>begin()\<close>). A fallible function of the model returns \<open>fault + 'a\<close>, with
  \<open>Inl\<close> for the fault.
\<close>

datatype fault = out_of_range | assertion_failed | undefined_behaviour

section \<open>Turn instructions\<close>

text \<open>
  Modelled from the spec: the enumerations \<open>TurnType\<close> and \<open>DirectionModifier\<close> and the
  struct \<open>TurnInstruction\<close> are declared in \<open>extractor/guidance/turn_instruction.hpp\<close>,
  which is not among the sources. The spec describes the turn type as a small closed
  enumeration and the direction modifier as eight values from UTurn to SharpRight.
  The thirteen roundabout categories are the constants that \<open>toolkit.hpp\<close> names; every
  other category of the enumeration is an \<open>OtherTurnType\<close>. Enumeration constants are
  pairwise different values, which is what the constructors of a datatype are.
\<close>

datatype TurnType =
    EnterRoundabout
  | EnterAndExitRoundabout
  | EnterRotary
  | EnterAndExitRotary
  | EnterRoundaboutIntersection
  | EnterAndExitRoundaboutIntersection
  | EnterRoundaboutAtExit
  | ExitRoundabout
  | EnterRotaryAtExit
  | ExitRotary
  | EnterRoundaboutIntersectionAtExit
  | ExitRoundaboutIntersection
  | StayOnRoundabout
  | OtherTurnType nat

datatype DirectionModifier =
  UTurn | SharpRight | Right | SlightRight | Straight | SlightLeft | Left | SharpLeft

record TurnInstruction =
  type :: TurnType
  direction_modifier :: DirectionModifier

text \<open>\<open>hasRoundaboutType\<close>: \<open>std::find\<close> over the array of thirteen valid types.\<close>

definition valid_types :: "TurnType list" where
  "valid_types =
    [EnterRoundabout, EnterAndExitRoundabout, EnterRotary, EnterAndExitRotary,
     EnterRoundaboutIntersection, EnterAndExitRoundaboutIntersection,
     EnterRoundaboutAtExit, ExitRoundabout, EnterRotaryAtExit, ExitRotary,
     EnterRoundaboutIntersectionAtExit, ExitRoundaboutIntersection, StayOnRoundabout]"

definition hasRoundaboutType :: "TurnInstruction \<Rightarrow> bool" where
  "hasRoundaboutType instruction =
    (List.find (\<lambda>t. t = type instruction) valid_types \<noteq> None)"

text \<open>
  \<open>entersRoundabout\<close> and \<open>leavesRoundabout\<close>: the disjunctions of the source, in the
  source's order. The last two disjuncts of \<open>entersRoundabout\<close> are the same test.
\<close>

definition entersRoundabout :: "TurnInstruction \<Rightarrow> bool" where
  "entersRoundabout instruction =
    (type instruction = EnterRoundabout \<or>
     type instruction = EnterRotary \<or>
     type instruction = EnterRoundaboutIntersection \<or>
     type instruction = EnterRoundaboutAtExit \<or>
     type instruction = EnterRotaryAtExit \<or>
     type instruction = EnterRoundaboutIntersectionAtExit \<or>
     type instruction = EnterAndExitRoundabout \<or>
     type instruction = EnterAndExitRotary \<or>
     type instruction = EnterAndExitRotary)"

definition leavesRoundabout :: "TurnInstruction \<Rightarrow> bool" where
  "leavesRoundabout instruction =
    (type instruction = ExitRoundabout \<or>
     type instruction = ExitRotary \<or>
     type instruction = ExitRoundaboutIntersection \<or>
     type instruction = EnterAndExitRoundabout \<or>
     type instruction = EnterAndExitRotary \<or>
     type instruction = EnterAndExitRoundaboutIntersection)"

section \<open>Double-precision arithmetic\<close>

text \<open>
  A \<open>double\<close> of the source is a real here, and an operation on doubles is the operation
  on reals followed by the rounding of IEEE 754 binary64: to the nearest number with a
  significand of 53 bits, a tie going to the even significand. The exponent is not
  bounded: results beyond the largest double or below the smallest normal one, infinities
  and NaN are outside the model.
\<close>

definition round_to_even :: "real \<Rightarrow> int" where
  "round_to_even y =
    (let f = \<lfloor>y\<rfloor>; r = y - of_int f in
     if r < 1 / 2 then f
     else if 1 / 2 < r then f + 1
     else if even f then f else f + 1)"

definition round_double :: "real \<Rightarrow> real" where
  "round_double x =
    (if x = 0 then 0
     else
       let unit = 2 powi (\<lfloor>log 2 \<bar>x\<bar>\<rfloor> - 52) in
       of_int (round_to_even (x / unit)) * unit)"

definition double_add :: "real \<Rightarrow> real \<Rightarrow> real" where
  "double_add a b = round_double (a + b)"

definition double_sub :: "real \<Rightarrow> real \<Rightarrow> real" where
  "double_sub a b = round_double (a - b)"

definition double_div :: "real \<Rightarrow> real \<Rightarrow> real" where
  "double_div a b = round_double (a / b)"

section \<open>Mirrored turns\<close>

text \<open>
  Modelled from the spec: \<open>ConnectedRoad\<close> is declared in
  \<open>extractor/guidance/intersection.hpp\<close> and \<open>angularDeviation\<close> in
  \<open>util/guidance/toolkit.hpp\<close>, neither among the sources. The spec gives a connected
  road a turn with an angle (a \<open>double\<close>, 0 to 360 degrees from straight ahead) and a turn
  instruction, and has \<open>mirror\<close> test whether "the turn angle deviates from 0 by more
  than a floating-point epsilon": the deviation of two angles on the circle is the smaller
  of their difference and of 360 minus their difference, computed in doubles. The
  source's \<open>mirrored_modifiers\<close> is indexed by the modifier's ordinal; the pairs the spec
  lists for it (UTurn with UTurn, SharpLeft with SharpRight, Left with Right, SlightLeft
  with SlightRight, Straight with Straight) fix the ordinals as \<open>modifier_index\<close> has
  them.
\<close>

record TurnOperation =
  angle :: real
  instruction :: TurnInstruction

record ConnectedRoad =
  turn :: TurnOperation

definition angularDeviation :: "real \<Rightarrow> real \<Rightarrow> real" where
  "angularDeviation first_angle second_angle =
    (let deviation = \<bar>double_sub first_angle second_angle\<bar>
     in min (double_sub 360 deviation) deviation)"

fun modifier_index :: "DirectionModifier \<Rightarrow> nat" where
  "modifier_index UTurn = 0"
| "modifier_index SharpRight = 1"
| "modifier_index Right = 2"
| "modifier_index SlightRight = 3"
| "modifier_index Straight = 4"
| "modifier_index SlightLeft = 5"
| "modifier_index Left = 6"
| "modifier_index SharpLeft = 7"

text \<open>\<open>std::numeric_limits<double>::epsilon()\<close> is \<open>2^-52\<close>.\<close>

definition epsilon :: real where
  "epsilon = 1 / 2 ^ 52"

definition mirrored_modifiers :: "DirectionModifier list" where
  "mirrored_modifiers =
    [UTurn, SharpLeft, Left, SlightLeft, Straight, SlightRight, Right, SharpRight]"

definition mirror :: "ConnectedRoad \<Rightarrow> ConnectedRoad" where
  "mirror road =
    (if angularDeviation (angle (turn road)) 0 > epsilon
     then road\<lparr>turn := (turn road)
            \<lparr>angle := double_sub 360 (angle (turn road)),
             instruction := (instruction (turn road))
               \<lparr>direction_modifier :=
                  mirrored_modifiers !
                    modifier_index (direction_modifier (instruction (turn road)))\<rparr>\<rparr>\<rparr>
     else road)"

section \<open>Lane strings\<close>

text \<open>
  \<open>static_cast<std::int32_t>(lane_string.size())\<close>: the narrowing of a \<open>size_t\<close> to 32 signed
  bits keeps the low 32 bits in two's complement (what the supported compilers do, and
  what C++20 prescribes). It is the identity below \<open>2^31\<close>.
\<close>

definition int32_of_size :: "nat \<Rightarrow> int" where
  "int32_of_size n = (int n + 2 ^ 31) mod 2 ^ 32 - 2 ^ 31"

text \<open>
  \<open>lane_string[i]\<close>: \<open>std::string::operator[]\<close> returns the character at \<open>i\<close>, the null
  character at \<open>i = size()\<close>, and is undefined beyond.
\<close>

definition char_at :: "string \<Rightarrow> nat \<Rightarrow> fault + char" where
  "char_at s i =
    (if i < length s then Inr (s ! i)
     else if i = length s then Inr (CHR 0x00)
     else Inl undefined_behaviour)"

text \<open>
  The loop over the first \<open>count_left\<close> characters, from the index \<open>i\<close>: it leaves
  \<open>sane\<close> as it is, or sets it to false and breaks at the first character that is
  neither \<open>'|'\<close> nor \<open>'&'\<close>.
\<close>

function left_scan :: "string \<Rightarrow> int \<Rightarrow> int \<Rightarrow> bool \<Rightarrow> fault + bool" where
  "left_scan lane_string count_left i sane =
    (if i < count_left then
       (case char_at lane_string (nat i) of
          Inl e \<Rightarrow> Inl e
        | Inr c \<Rightarrow>
            if c \<noteq> CHR ''|'' \<and> c \<noteq> CHR ''&'' then Inr False
            else left_scan lane_string count_left (i + 1) sane)
     else Inr sane)"
  by pat_completeness auto
termination
  by (relation "measure (\<lambda>(lane_string, count_left, i, sane). nat (count_left - i))") auto

declare left_scan.simps [simp del]

text \<open>
  The loop over the reverse iterator: the first argument is what the iterator still has
  before it up to \<open>rend()\<close> (the string reversed, at the start), \<open>len\<close> is the size of the
  string and \<open>k\<close> the iterator's distance from \<open>rbegin()\<close>. The loop test is
  \<open>itr != rend() && itr != rbegin() + count_right\<close>: at \<open>rend()\<close> the second operand is
  not evaluated; before \<open>rend()\<close> it is, at every round, and the iterator
  \<open>rbegin() + count_right\<close> exists only for \<open>0 \<le> count_right \<le> size()\<close> (at \<open>size()\<close> it is
  \<open>rend()\<close>). Forming it for any other count is undefined.
\<close>

fun right_scan :: "string \<Rightarrow> nat \<Rightarrow> int \<Rightarrow> int \<Rightarrow> bool \<Rightarrow> fault + bool" where
  "right_scan [] len count_right k sane = Inr sane"
| "right_scan (c # itr) len count_right k sane =
    (if 0 \<le> count_right \<and> count_right \<le> int len then
       (if k = count_right then Inr sane
        else if c \<noteq> CHR ''|'' \<and> c \<noteq> CHR ''&'' then Inr False
        else right_scan itr len count_right (k + 1) sane)
     else Inl undefined_behaviour)"

text \<open>
  \<open>lane_string.erase(begin(), begin() + n)\<close> is defined for \<open>0 \<le> n \<le> size()\<close>.
  \<open>lane_string.resize(size() - count_right)\<close> computes its argument in \<open>size_t\<close> (64 bits,
  wrapping) and pads with null characters when it grows the string.

  \<open>trimLaneString\<close> is its two blocks one after the other: \<open>trim_left\<close> is the block
  \<open>if (count_left)\<close>, \<open>trim_right\<close> the block \<open>if (count_right)\<close>, which works on the
  string the first block has left.
\<close>

definition erase_front :: "string \<Rightarrow> int \<Rightarrow> fault + string" where
  "erase_front s n =
    (if 0 \<le> n \<and> n \<le> int (length s) then Inr (drop (nat n) s) else Inl undefined_behaviour)"

definition resize :: "string \<Rightarrow> nat \<Rightarrow> string" where
  "resize s n = take n s @ replicate (n - length s) (CHR 0x00)"

definition trim_left :: "string \<Rightarrow> int \<Rightarrow> fault + string" where
  "trim_left lane_string count_left =
    (if count_left \<noteq> 0 then
       (case left_scan lane_string count_left 0
               (count_left < int32_of_size (length lane_string)) of
          Inl e \<Rightarrow> Inl e
        | Inr sane \<Rightarrow> if sane then erase_front lane_string count_left else Inr lane_string)
     else Inr lane_string)"

definition trim_right :: "string \<Rightarrow> int \<Rightarrow> fault + string" where
  "trim_right lane_string count_right =
    (if count_right \<noteq> 0 then
       (case right_scan (rev lane_string) (length lane_string) count_right 0
               (count_right < int32_of_size (length lane_string)) of
          Inl e \<Rightarrow> Inl e
        | Inr sane \<Rightarrow>
            if sane
            then Inr (resize lane_string
                        (nat ((int (length lane_string) - count_right) mod 2 ^ 64)))
            else Inr lane_string)
     else Inr lane_string)"

definition trimLaneString :: "string \<Rightarrow> int \<Rightarrow> int \<Rightarrow> fault + string" where
  "trimLaneString lane_string count_left count_right =
    (case trim_left lane_string count_left of
       Inl e \<Rightarrow> Inl e
     | Inr trimmed \<Rightarrow> trim_right trimmed count_right)"

section \<open>Representative coordinates\<close>

text \<open>
  Modelled from the spec: \<open>util::Coordinate\<close>, \<open>extractor::QueryNode\<close>, the compressed edge
  of \<open>CompressedEdgeContainer\<close> and the container itself are declared outside the sources.
  The spec gives a coordinate a longitude and a latitude in fixed-point degrees, the node
  table as node id \<open>\<rightarrow>\<close> node with a position, indexed by integer id, and the container as
  edge id \<open>\<rightarrow>\<close> ordered bucket of (node id, weight) pairs with a "has entry" and a "get
  bucket" operation. The fields of \<open>QueryNode\<close> carry the prefix \<open>node_\<close> here, since a
  record field is a constant of the theory.
\<close>

record Coordinate =
  lon :: int
  lat :: int

record QueryNode =
  node_lon :: int
  node_lat :: int

record CompressedEdge =
  node_id :: nat
  weight :: nat

type_synonym CompressedEdgeContainer = "nat \<rightharpoonup> CompressedEdge list"

definition HasEntryForID :: "CompressedEdgeContainer \<Rightarrow> nat \<Rightarrow> bool" where
  "HasEntryForID compressed_geometries via_edge_id = (compressed_geometries via_edge_id \<noteq> None)"

text \<open>
  \<open>query_nodes[i]\<close> on a \<open>std::vector\<close>: undefined behaviour when \<open>i\<close> is not an index of
  the vector.
\<close>

definition node_at :: "QueryNode list \<Rightarrow> nat \<Rightarrow> fault + QueryNode" where
  "node_at query_nodes i =
    (if i < length query_nodes then Inr (query_nodes ! i) else Inl undefined_behaviour)"

definition extractCoordinateFromNode :: "QueryNode \<Rightarrow> Coordinate" where
  "extractCoordinateFromNode node = \<lparr>lon = node_lon node, lat = node_lat node\<rparr>"

text \<open>
  Distances are \<open>double\<close>s: their sums, differences and quotients are the rounded ones
  of \<open>double_add\<close>, \<open>double_sub\<close> and \<open>double_div\<close>, and the tests compare the rounded
  values. \<open>std::max\<close> and \<open>std::min\<close> do not round.
\<close>

definition DESIRED_SEGMENT_LENGTH :: real where
  "DESIRED_SEGMENT_LENGTH = 10"

text \<open>
  \<open>getFactor\<close>, with its three assertions in the source's order. A failed \<open>BOOST_ASSERT\<close>
  is the fault \<open>assertion_failed\<close>; the division is reached only after the assertion
  \<open>segment_length > 0\<close>.
\<close>

definition getFactor :: "real \<Rightarrow> real \<Rightarrow> fault + real" where
  "getFactor first_distance second_distance =
    (if \<not> first_distance < DESIRED_SEGMENT_LENGTH then Inl assertion_failed
     else
       let segment_length = double_sub second_distance first_distance in
       if \<not> segment_length > 0 then Inl assertion_failed
       else if \<not> second_distance \<ge> DESIRED_SEGMENT_LENGTH then Inl assertion_failed
       else
         let missing_distance = double_sub DESIRED_SEGMENT_LENGTH first_distance in
         Inr (max 0 (min (double_div missing_distance segment_length) 1)))"

text \<open>
  \<open>util::coordinate_calculation::haversineDistance\<close> and \<open>interpolateLinear\<close> are defined
  outside the sources. They are the parameters \<open>haversineDistance\<close> and
  \<open>interpolateLinear\<close> of the functions that call them; nothing is assumed of them.

  The \<open>for\<close> loop of \<open>getCoordinateFromCompressedRange\<close> and the code after it, as a
  recursion over the range that is left. The loop's state is the current coordinate and
  the distance to it.
\<close>

fun compressed_range_loop ::
  "(Coordinate \<Rightarrow> Coordinate \<Rightarrow> real) \<Rightarrow> (real \<Rightarrow> Coordinate \<Rightarrow> Coordinate \<Rightarrow> Coordinate) \<Rightarrow>
   Coordinate \<Rightarrow> real \<Rightarrow> CompressedEdge list \<Rightarrow> Coordinate \<Rightarrow> QueryNode list \<Rightarrow>
   fault + Coordinate" where
  "compressed_range_loop haversineDistance interpolateLinear current_coordinate
      distance_to_current_coordinate [] final_coordinate query_nodes =
    (let distance_to_next_coordinate =
           double_add distance_to_current_coordinate
             (haversineDistance current_coordinate final_coordinate)
     in
       if distance_to_current_coordinate < DESIRED_SEGMENT_LENGTH \<and>
          distance_to_next_coordinate \<ge> DESIRED_SEGMENT_LENGTH
       then
         (case getFactor distance_to_current_coordinate distance_to_next_coordinate of
            Inl e \<Rightarrow> Inl e
          | Inr factor \<Rightarrow> Inr (interpolateLinear factor current_coordinate final_coordinate))
       else Inr final_coordinate)"
| "compressed_range_loop haversineDistance interpolateLinear current_coordinate
      distance_to_current_coordinate (compressed_geometry_itr # rest) final_coordinate query_nodes =
    (case node_at query_nodes (node_id compressed_geometry_itr) of
       Inl e \<Rightarrow> Inl e
     | Inr node \<Rightarrow>
         let next_coordinate = extractCoordinateFromNode node;
             distance_to_next_coordinate =
               double_add distance_to_current_coordinate
                 (haversineDistance current_coordinate next_coordinate)
         in
           if distance_to_next_coordinate \<ge> DESIRED_SEGMENT_LENGTH
           then
             (case getFactor distance_to_current_coordinate distance_to_next_coordinate of
                Inl e \<Rightarrow> Inl e
              | Inr factor \<Rightarrow> Inr (interpolateLinear factor current_coordinate next_coordinate))
           else
             compressed_range_loop haversineDistance interpolateLinear next_coordinate
               distance_to_next_coordinate rest final_coordinate query_nodes)"

definition getCoordinateFromCompressedRange ::
  "(Coordinate \<Rightarrow> Coordinate \<Rightarrow> real) \<Rightarrow> (real \<Rightarrow> Coordinate \<Rightarrow> Coordinate \<Rightarrow> Coordinate) \<Rightarrow>
   Coordinate \<Rightarrow> CompressedEdge list \<Rightarrow> Coordinate \<Rightarrow> QueryNode list \<Rightarrow> fault + Coordinate" where
  "getCoordinateFromCompressedRange haversineDistance interpolateLinear current_coordinate
      compressed_geometry final_coordinate query_nodes =
    compressed_range_loop haversineDistance interpolateLinear current_coordinate 0
      compressed_geometry final_coordinate query_nodes"

text \<open>
  \<open>getRepresentativeCoordinate\<close>. The \<open>case\<close> on the container's entry is the test
  \<open>HasEntryForID\<close> followed, when there is an entry, by \<open>GetBucketReference\<close>. The reverse
  iterators \<open>rbegin()\<close> to \<open>rend()\<close> walk the bucket reversed.
\<close>

definition getRepresentativeCoordinate ::
  "(Coordinate \<Rightarrow> Coordinate \<Rightarrow> real) \<Rightarrow> (real \<Rightarrow> Coordinate \<Rightarrow> Coordinate \<Rightarrow> Coordinate) \<Rightarrow>
   nat \<Rightarrow> nat \<Rightarrow> nat \<Rightarrow> bool \<Rightarrow> CompressedEdgeContainer \<Rightarrow> QueryNode list \<Rightarrow>
   fault + Coordinate" where
  "getRepresentativeCoordinate haversineDistance interpolateLinear from_node to_node via_edge_id
      traverse_in_reverse compressed_geometries query_nodes =
    (case compressed_geometries via_edge_id of
       None \<Rightarrow>
         (case node_at query_nodes (if traverse_in_reverse then from_node else to_node) of
            Inl e \<Rightarrow> Inl e
          | Inr node \<Rightarrow> Inr (extractCoordinateFromNode node))
     | Some geometry \<Rightarrow>
         let base_node_id = (if traverse_in_reverse then to_node else from_node) in
         (case node_at query_nodes base_node_id of
            Inl e \<Rightarrow> Inl e
          | Inr base_node \<Rightarrow>
              let base_coordinate = extractCoordinateFromNode base_node;
                  final_node = (if traverse_in_reverse then from_node else to_node)
              in
              (case node_at query_nodes final_node of
                 Inl e \<Rightarrow> Inl e
               | Inr final \<Rightarrow>
                   let final_coordinate = extractCoordinateFromNode final in
                   if traverse_in_reverse
                   then getCoordinateFromCompressedRange haversineDistance interpolateLinear
                          base_coordinate (rev geometry) final_coordinate query_nodes
                   else getCoordinateFromCompressedRange haversineDistance interpolateLinear
                          base_coordinate geometry final_coordinate query_nodes)))"

text \<open>
  The polyline of an edge, for stating properties of the walk: the coordinates of the
  intermediate nodes, the distance accumulated along them from a start (a sum of doubles,
  rounded at each step as the source's sum is), and whether every accumulated distance
  along them stays below the target.
\<close>

definition geometry_coordinates :: "QueryNode list \<Rightarrow> CompressedEdge list \<Rightarrow> Coordinate list" where
  "geometry_coordinates query_nodes geometry =
    map (\<lambda>e. extractCoordinateFromNode (query_nodes ! node_id e)) geometry"

fun accumulated_distance ::
  "(Coordinate \<Rightarrow> Coordinate \<Rightarrow> real) \<Rightarrow> Coordinate \<Rightarrow> real \<Rightarrow> Coordinate list \<Rightarrow> real" where
  "accumulated_distance haversineDistance current d [] = d"
| "accumulated_distance haversineDistance current d (next # rest) =
    accumulated_distance haversineDistance next
      (double_add d (haversineDistance current next)) rest"

fun stays_below_target ::
  "(Coordinate \<Rightarrow> Coordinate \<Rightarrow> real) \<Rightarrow> Coordinate \<Rightarrow> real \<Rightarrow> Coordinate list \<Rightarrow> bool" where
  "stays_below_target haversineDistance current d [] = True"
| "stays_below_target haversineDistance current d (next # rest) =
    (double_add d (haversineDistance current next) < DESIRED_SEGMENT_LENGTH \<and>
     stays_below_target haversineDistance next
       (double_add d (haversineDistance current next)) rest)"

definition nodes_in_range :: "QueryNode list \<Rightarrow> CompressedEdge list \<Rightarrow> bool" where
  "nodes_in_range query_nodes geometry = list_all (\<lambda>e. node_id e < length query_nodes) geometry"

section \<open>Name announcements\<close>

subsection \<open>The string operations the source calls\<close>

text \<open>
  \<open>std::string\<close> positions and counts are \<open>size_t\<close> values: naturals below \<open>2^64\<close>, with
  \<open>npos\<close> the largest. Sums and differences of them wrap around.
\<close>

definition npos :: nat where
  "npos = 2 ^ 64 - 1"

definition size_add :: "nat \<Rightarrow> nat \<Rightarrow> nat" where
  "size_add a b = (a + b) mod 2 ^ 64"

definition size_sub :: "nat \<Rightarrow> nat \<Rightarrow> nat" where
  "size_sub a b = nat ((int a - int b) mod 2 ^ 64)"

text \<open>
  \<open>find_first_of(c)\<close> and \<open>find_last_of(c)\<close>: the position of the first (last) occurrence
  of the character, \<open>npos\<close> when there is none. The second function walks the string
  from its last position down.
\<close>

fun find_first_from :: "string \<Rightarrow> char \<Rightarrow> nat \<Rightarrow> nat" where
  "find_first_from [] c i = npos"
| "find_first_from (x # xs) c i = (if x = c then i else find_first_from xs c (Suc i))"

definition find_first_of :: "string \<Rightarrow> char \<Rightarrow> nat" where
  "find_first_of s c = find_first_from s c 0"

fun find_last_from :: "string \<Rightarrow> char \<Rightarrow> nat \<Rightarrow> nat" where
  "find_last_from [] c i = npos"
| "find_last_from (x # xs) c i = (if x = c then i else find_last_from xs c (i - 1))"

definition find_last_of :: "string \<Rightarrow> char \<Rightarrow> nat" where
  "find_last_of s c = find_last_from (rev s) c (length s - 1)"

text \<open>
  \<open>substr(pos, count)\<close> throws \<open>std::out_of_range\<close> when \<open>pos > size()\<close> and returns the
  \<open>min(count, size() - pos)\<close> characters from \<open>pos\<close> otherwise.
\<close>

definition substr :: "string \<Rightarrow> nat \<Rightarrow> nat \<Rightarrow> fault + string" where
  "substr s pos count =
    (if pos > length s then Inl out_of_range else Inr (take count (drop pos s)))"

text \<open>
  \<open>boost::to_lower\<close> in the classic locale: the letters \<open>A\<close> to \<open>Z\<close> (codes 65 to 90) move to
  \<open>a\<close> to \<open>z\<close>, every other character stays.
\<close>

definition to_lower_char :: "char \<Rightarrow> char" where
  "to_lower_char c =
    (if 65 \<le> (of_char c :: nat) \<and> (of_char c :: nat) \<le> 90
     then char_of ((of_char c :: nat) + 32) else c)"

definition to_lower :: "string \<Rightarrow> string" where
  "to_lower s = map to_lower_char s"

text \<open>
  \<open>boost::starts_with(input, test)\<close>; \<open>input.find(str)\<close>, the position of the first
  occurrence of \<open>str\<close> in \<open>input\<close> or \<open>npos\<close>; and the five-argument
  \<open>compare(pos1, count1, str, pos2, count2)\<close>, which throws \<open>std::out_of_range\<close> when a
  position is past the end of its string and otherwise compares the two substrings
  character by character as unsigned values, then by length.
\<close>

fun starts_with :: "string \<Rightarrow> string \<Rightarrow> bool" where
  "starts_with input [] = True"
| "starts_with [] (t # test) = False"
| "starts_with (x # input) (t # test) = (x = t \<and> starts_with input test)"

fun find_string_from :: "string \<Rightarrow> string \<Rightarrow> nat \<Rightarrow> nat" where
  "find_string_from [] str i = (if str = [] then i else npos)"
| "find_string_from (x # input) str i =
    (if starts_with (x # input) str then i else find_string_from input str (Suc i))"

definition find_string :: "string \<Rightarrow> string \<Rightarrow> nat" where
  "find_string input str = find_string_from input str 0"

fun compare_chars :: "string \<Rightarrow> string \<Rightarrow> int" where
  "compare_chars [] [] = 0"
| "compare_chars [] (y # ys) = - 1"
| "compare_chars (x # xs) [] = 1"
| "compare_chars (x # xs) (y # ys) =
    (if (of_char x :: nat) < of_char y then - 1
     else if (of_char y :: nat) < of_char x then 1
     else compare_chars xs ys)"

definition compare :: "string \<Rightarrow> nat \<Rightarrow> nat \<Rightarrow> string \<Rightarrow> nat \<Rightarrow> nat \<Rightarrow> fault + int" where
  "compare s pos1 count1 str pos2 count2 =
    (if pos1 > length s \<or> pos2 > length str then Inl out_of_range
     else Inr (compare_chars (take count1 (drop pos1 s)) (take count2 (drop pos2 str))))"

text \<open>
  Modelled from the spec: \<open>SuffixTable\<close> is declared in \<open>extractor/suffix_table.hpp\<close>, which
  is not among the sources. The spec describes it as a set of lower-cased tokens that
  exposes the predicate "is this lower-cased token a known suffix".
\<close>

type_synonym SuffixTable = "string set"

definition isSuffix :: "SuffixTable \<Rightarrow> string \<Rightarrow> bool" where
  "isSuffix suffix_table possible_suffix = (possible_suffix \<in> suffix_table)"

subsection \<open>The functions of the toolkit\<close>

definition getPrefixAndSuffix :: "string \<Rightarrow> fault + string \<times> string" where
  "getPrefixAndSuffix data =
    (let suffix_pos = find_last_of data (CHR '' '') in
     if suffix_pos = npos then Inr ([], [])
     else
       let prefix_pos = find_first_of data (CHR '' '') in
       (case substr data 0 prefix_pos of
          Inl e \<Rightarrow> Inl e
        | Inr first \<Rightarrow>
            (case substr data (size_add suffix_pos 1) npos of
               Inl e \<Rightarrow> Inl e
             | Inr second \<Rightarrow> Inr (to_lower first, to_lower second))))"

text \<open>
  The lambda \<open>split\<close> of \<open>requiresNameAnnounced\<close>. It writes into \<open>out_name\<close> and \<open>out_ref\<close>;
  here it takes the pair of their values before the call and returns the pair after it.
\<close>

definition split_name :: "string \<Rightarrow> string \<times> string \<Rightarrow> fault + string \<times> string" where
  "split_name name out =
    (let ref_begin = find_first_of name (CHR ''('') in
     if ref_begin \<noteq> npos then
       (case (if ref_begin \<noteq> 0 then substr name 0 (size_sub ref_begin 1) else Inr (fst out)) of
          Inl e \<Rightarrow> Inl e
        | Inr out_name \<Rightarrow>
            let ref_end = find_first_of name (CHR '')'') in
            (case substr name (size_add ref_begin 1) (size_sub (size_sub ref_end ref_begin) 1) of
               Inl e \<Rightarrow> Inl e
             | Inr out_ref \<Rightarrow> Inr (out_name, out_ref)))
     else Inr (name, snd out))"

text \<open>
  The lambda \<open>checkForPrefixOrSuffixChange\<close> with its inner lambdas: \<open>checkTable\<close> and the
  two that compute \<open>is_prefix_change\<close> and \<open>is_suffix_change\<close> (\<open>is_prefix_change_of\<close> and
  \<open>is_suffix_change_of\<close> here). Each of the two checks the token of \<open>first\<close> twice, as the
  source does.
\<close>

definition checkTable :: "SuffixTable \<Rightarrow> string \<Rightarrow> bool" where
  "checkTable suffix_table str = (str = [] \<or> isSuffix suffix_table str)"

definition is_prefix_change_of ::
  "string \<Rightarrow> string \<Rightarrow> string \<times> string \<Rightarrow> string \<times> string \<Rightarrow> SuffixTable \<Rightarrow> fault + bool" where
  "is_prefix_change_of first second first_prefix_and_suffixes second_prefix_and_suffixes suffix_table =
    (if \<not> checkTable suffix_table (fst first_prefix_and_suffixes) then Inr False
     else if \<not> checkTable suffix_table (fst first_prefix_and_suffixes) then Inr False
     else
       (case compare first (length (fst first_prefix_and_suffixes)) npos
                     second (length (fst second_prefix_and_suffixes)) npos of
          Inl e \<Rightarrow> Inl e
        | Inr r \<Rightarrow> Inr (r = 0)))"

definition is_suffix_change_of ::
  "string \<Rightarrow> string \<Rightarrow> string \<times> string \<Rightarrow> string \<times> string \<Rightarrow> SuffixTable \<Rightarrow> fault + bool" where
  "is_suffix_change_of first second first_prefix_and_suffixes second_prefix_and_suffixes suffix_table =
    (if \<not> checkTable suffix_table (snd first_prefix_and_suffixes) then Inr False
     else if \<not> checkTable suffix_table (snd first_prefix_and_suffixes) then Inr False
     else
       (case compare first 0
                     (size_sub (length first) (length (snd first_prefix_and_suffixes)))
                     second 0
                     (size_sub (length second) (length (snd second_prefix_and_suffixes))) of
          Inl e \<Rightarrow> Inl e
        | Inr r \<Rightarrow> Inr (r = 0)))"

definition checkForPrefixOrSuffixChange :: "string \<Rightarrow> string \<Rightarrow> SuffixTable \<Rightarrow> fault + bool" where
  "checkForPrefixOrSuffixChange first second suffix_table =
    (case getPrefixAndSuffix first of
       Inl e \<Rightarrow> Inl e
     | Inr first_prefix_and_suffixes \<Rightarrow>
         (case getPrefixAndSuffix second of
            Inl e \<Rightarrow> Inl e
          | Inr second_prefix_and_suffixes \<Rightarrow>
              (case is_prefix_change_of first second first_prefix_and_suffixes
                      second_prefix_and_suffixes suffix_table of
                 Inl e \<Rightarrow> Inl e
               | Inr prefix_change \<Rightarrow>
                   (case is_suffix_change_of first second first_prefix_and_suffixes
                           second_prefix_and_suffixes suffix_table of
                      Inl e \<Rightarrow> Inl e
                    | Inr suffix_change \<Rightarrow> Inr (prefix_change \<or> suffix_change)))))"

text \<open>
  The part of \<open>requiresNameAnnounced\<close> after the two calls of \<open>split\<close> and the call of
  \<open>checkForPrefixOrSuffixChange\<close>: the signals and \<open>obvious_change\<close>.
\<close>

definition obvious_change :: "string \<Rightarrow> string \<Rightarrow> string \<Rightarrow> string \<Rightarrow> bool \<Rightarrow> bool" where
  "obvious_change from_name from_ref to_name to_ref is_suffix_change =
    (let names_are_empty = (from_name = [] \<and> to_name = []);
         name_is_contained = (starts_with from_name to_name \<or> starts_with to_name from_name);
         names_are_equal = (from_name = to_name \<or> name_is_contained \<or> is_suffix_change);
         name_is_removed = (from_name \<noteq> [] \<and> to_name = []);
         refs_are_empty = (from_ref = [] \<and> to_ref = []);
         ref_is_contained =
           (from_ref = [] \<or> to_ref = [] \<or>
            (find_string from_ref to_ref \<noteq> npos \<or> find_string to_ref from_ref \<noteq> npos));
         ref_is_removed = (from_ref \<noteq> [] \<and> to_ref = [])
     in (names_are_empty \<and> refs_are_empty) \<or> (names_are_equal \<and> ref_is_contained) \<or>
        (names_are_equal \<and> refs_are_empty) \<or> (ref_is_contained \<and> name_is_removed) \<or>
        (names_are_equal \<and> ref_is_removed) \<or> is_suffix_change)"

definition requiresNameAnnounced :: "string \<Rightarrow> string \<Rightarrow> SuffixTable \<Rightarrow> fault + bool" where
  "requiresNameAnnounced from to suffix_table =
    (if from = [] \<and> to \<noteq> [] then Inr True
     else
       (case split_name from ([], []) of
          Inl e \<Rightarrow> Inl e
        | Inr (from_name, from_ref) \<Rightarrow>
            (case split_name to ([], []) of
               Inl e \<Rightarrow> Inl e
             | Inr (to_name, to_ref) \<Rightarrow>
                 (case checkForPrefixOrSuffixChange from_name to_name suffix_table of
                    Inl e \<Rightarrow> Inl e
                  | Inr is_suffix_change \<Rightarrow>
                      Inr (\<not> obvious_change from_name from_ref to_name to_ref
                               is_suffix_change)))))"

subsection \<open>The policy in the spec's words\<close>


text \<open>
  The parse of the spec's step 2, written from its sentence: the name is the text before
  the opening parenthesis trimmed of one trailing space, the reference is the text inside
  the parentheses, and without parentheses the whole string is the name.
\<close>

definition trim_one_trailing_space :: "string \<Rightarrow> string" where
  "trim_one_trailing_space s = (if s \<noteq> [] \<and> last s = CHR '' '' then butlast s else s)"

definition spec_parse :: "string \<Rightarrow> string \<times> string" where
  "spec_parse s =
    (if CHR ''('' \<in> set s
     then (trim_one_trailing_space (takeWhile (\<lambda>c. c \<noteq> CHR ''('') s),
           takeWhile (\<lambda>c. c \<noteq> CHR '')'') (tl (dropWhile (\<lambda>c. c \<noteq> CHR ''('') s)))
     else (s, []))"










section \<open>Roundabout classification\<close>

text \<open>
  What holds of the three predicates: a type that enters or leaves a roundabout is one of
  the thirteen valid types, and two of the three combined categories count as both.
\<close>

lemma roundabout_predicates_within_valid_types:
  "entersRoundabout turn_instruction \<or> leavesRoundabout turn_instruction \<Longrightarrow> hasRoundaboutType turn_instruction"
  by (auto simp: entersRoundabout_def leavesRoundabout_def hasRoundaboutType_def valid_types_def)

lemma combined_roundabout_and_rotary:
  "type turn_instruction = EnterAndExitRoundabout \<or> type turn_instruction = EnterAndExitRotary \<Longrightarrow>
   entersRoundabout turn_instruction \<and> leavesRoundabout turn_instruction"
  by (auto simp: entersRoundabout_def leavesRoundabout_def)

text \<open>
  Claim C2 says that the three combined enter-and-exit categories count as both entering
  and leaving. For \<open>EnterAndExitRoundaboutIntersection\<close> the code disagrees:
  \<open>leavesRoundabout\<close> accepts it, \<open>hasRoundaboutType\<close> accepts it, but
  \<open>entersRoundabout\<close> tests \<open>EnterAndExitRotary\<close> twice and this category never.
\<close>

theorem entersRoundabout_misses_combined_intersection:
  "entersRoundabout \<lparr>type = EnterAndExitRoundaboutIntersection, direction_modifier = m\<rparr> = False
   \<and> leavesRoundabout \<lparr>type = EnterAndExitRoundaboutIntersection, direction_modifier = m\<rparr> = True
   \<and> hasRoundaboutType \<lparr>type = EnterAndExitRoundaboutIntersection, direction_modifier = m\<rparr> = True"
  by (simp add: entersRoundabout_def leavesRoundabout_def hasRoundaboutType_def valid_types_def)

section \<open>Properties of the rounding\<close>

lemma round_to_even_close: "\<bar>of_int (round_to_even y) - y\<bar> \<le> 1 / 2"
  unfolding round_to_even_def Let_def by (auto simp: abs_le_iff)

lemma round_to_even_of_int: "round_to_even (of_int n) = n"
  by (simp add: round_to_even_def)

lemma powr_powi: "(2::real) powr real_of_int k = 2 powi k"
  by (simp add: powr_real_of_int')

lemma powr_powi_Suc: "(2::real) powr (real_of_int k + 1) = 2 powi (k + 1)"
  using powr_powi[of "k + 1"] by simp

lemma exponent_iff:
  assumes "0 < \<bar>x\<bar>"
  shows "\<lfloor>log 2 \<bar>x\<bar>\<rfloor> = e \<longleftrightarrow> 2 powi e \<le> \<bar>x\<bar> \<and> \<bar>x\<bar> < 2 powi (e + 1)"
  using floor_log_eq_powr_iff[OF assms, of 2 e] by (simp only: powr_powi powr_powi_Suc)

lemma exponent_bounds:
  assumes "x \<noteq> 0"
  shows "2 powi \<lfloor>log 2 \<bar>x\<bar>\<rfloor> \<le> \<bar>x\<bar>" and "\<bar>x\<bar> < 2 powi (\<lfloor>log 2 \<bar>x\<bar>\<rfloor> + 1)"
proof -
  have pos: "0 < \<bar>x\<bar>" using assms by simp
  from exponent_iff[OF pos, of "\<lfloor>log 2 \<bar>x\<bar>\<rfloor>"]
  show "2 powi \<lfloor>log 2 \<bar>x\<bar>\<rfloor> \<le> \<bar>x\<bar>" and "\<bar>x\<bar> < 2 powi (\<lfloor>log 2 \<bar>x\<bar>\<rfloor> + 1)"
    by simp_all
qed

lemma exponent_unique:
  assumes "2 powi e \<le> \<bar>x\<bar>" and "\<bar>x\<bar> < 2 powi (e + 1)"
  shows "\<lfloor>log 2 \<bar>x\<bar>\<rfloor> = e"
proof -
  have "(0::real) < 2 powi e" by simp
  with assms(1) have pos: "0 < \<bar>x\<bar>" by linarith
  show ?thesis using assms exponent_iff[OF pos, of e] by simp
qed

lemma round_double_error: "\<bar>round_double x - x\<bar> \<le> \<bar>x\<bar> / 2 ^ 53"
proof (cases "x = 0")
  case True
  then show ?thesis by (simp add: round_double_def)
next
  case False
  let ?e = "\<lfloor>log 2 \<bar>x\<bar>\<rfloor>"
  let ?u = "(2::real) powi (?e - 52)"
  have u: "0 < ?u" by simp
  have "round_double x - x = (of_int (round_to_even (x / ?u)) - x / ?u) * ?u"
    using False u by (simp add: round_double_def Let_def field_simps)
  then have "\<bar>round_double x - x\<bar> = \<bar>of_int (round_to_even (x / ?u)) - x / ?u\<bar> * ?u"
    using u by (simp add: abs_mult)
  also have "\<dots> \<le> 1 / 2 * ?u"
    using round_to_even_close[of "x / ?u"] u by (intro mult_right_mono) simp_all
  also have "\<dots> = 2 powi ?e / 2 ^ 53"
    by (simp add: power_int_diff)
  also have "\<dots> \<le> \<bar>x\<bar> / 2 ^ 53"
    using exponent_bounds(1)[OF False] by (intro divide_right_mono) simp_all
  finally show ?thesis .
qed

lemma round_double_zero [simp]: "round_double 0 = 0"
  by (simp add: round_double_def)

lemma round_double_lower: "0 \<le> x \<Longrightarrow> x / 2 \<le> round_double x"
proof -
  assume x: "0 \<le> x"
  have "x / 2 ^ 53 \<le> x / 2" using x by (intro divide_left_mono) simp_all
  moreover have "x - round_double x \<le> \<bar>x\<bar> / 2 ^ 53"
    using round_double_error[of x] by linarith
  ultimately show ?thesis using x by simp
qed

lemma round_double_pos: "0 < x \<Longrightarrow> 0 < round_double x"
  using round_double_lower[of x] by simp

lemma round_double_near:
  assumes "0 \<le> x" and "x \<le> 360"
  shows "\<bar>round_double x - x\<bar> \<le> 360 / 2 ^ 53"
proof -
  have "\<bar>x\<bar> / 2 ^ 53 \<le> 360 / 2 ^ 53" using assms by (intro divide_right_mono) simp_all
  with round_double_error[of x] show ?thesis by linarith
qed

text \<open>
  The rounding at a known exponent, and the numbers that are their own rounding: an
  integer of less than 54 bits times a power of two.
\<close>

lemma round_double_at:
  assumes "2 powi e \<le> \<bar>x\<bar>" and "\<bar>x\<bar> < 2 powi (e + 1)"
  shows "round_double x = of_int (round_to_even (x / 2 powi (e - 52))) * 2 powi (e - 52)"
proof -
  have "(0::real) < 2 powi e" by simp
  with assms(1) have "0 < \<bar>x\<bar>" by linarith
  then have "x \<noteq> 0" by simp
  then show ?thesis
    by (simp add: round_double_def Let_def exponent_unique[OF assms])
qed

lemma round_double_representable:
  assumes "\<bar>m\<bar> < 2 ^ 53"
  shows "round_double (of_int m * 2 powi k) = of_int m * 2 powi k"
proof (cases "m = 0")
  case True
  then show ?thesis by simp
next
  case False
  let ?x = "real_of_int m * 2 powi k"
  let ?e = "\<lfloor>log 2 \<bar>?x\<bar>\<rfloor>"
  have nz: "?x \<noteq> 0" using False by simp
  have "\<bar>?x\<bar> = \<bar>real_of_int m\<bar> * 2 powi k" by (simp add: abs_mult)
  also have "\<dots> < 2 ^ 53 * 2 powi k"
  proof -
    have "\<bar>real_of_int m\<bar> < 2 ^ 53"
      using assms by (metis of_int_abs of_int_less_iff of_int_numeral of_int_power)
    then show ?thesis by (intro mult_strict_right_mono) simp_all
  qed
  also have "\<dots> = 2 powi (53 + k)" by (simp add: power_int_add)
  finally have "2 powi ?e < (2::real) powi (53 + k)"
    using exponent_bounds(1)[OF nz] by linarith
  then have "?e < 53 + k"
    by (metis linorder_not_less one_less_numeral_iff power_int_increasing semiring_norm(76) less_eq_real_def)
  then have t: "0 \<le> k + 52 - ?e" by simp
  let ?t = "nat (k + 52 - ?e)"
  let ?u = "(2::real) powi (?e - 52)"
  have pow: "(2::real) powi (k + 52 - ?e) = 2 ^ ?t"
    using t by (simp add: power_int_def)
  have ratio: "(2::real) powi k / ?u = 2 powi (k + 52 - ?e)"
  proof -
    have "(2::real) powi k / ?u = 2 powi (k - (?e - 52))" by (simp add: power_int_diff)
    also have "k - (?e - 52) = k + 52 - ?e" by simp
    finally show ?thesis .
  qed
  have u: "?u \<noteq> 0" by simp
  have "?x / ?u = real_of_int m * (2 powi k / ?u)" by simp
  also have "\<dots> = real_of_int m * 2 ^ ?t" by (simp only: ratio pow)
  also have "\<dots> = real_of_int (m * 2 ^ ?t)" by simp
  finally have q: "?x / ?u = real_of_int (m * 2 ^ ?t)" .
  have "round_double ?x = real_of_int (round_to_even (?x / ?u)) * ?u"
    using nz by (simp only: round_double_def Let_def if_False)
  also have "\<dots> = real_of_int (m * 2 ^ ?t) * ?u"
    by (simp only: q round_to_even_of_int)
  also have "\<dots> = (?x / ?u) * ?u" by (simp only: q)
  also have "\<dots> = ?x" using u by simp
  finally show ?thesis .
qed

lemma round_double_of_int: "\<bar>m\<bar> < 2 ^ 53 \<Longrightarrow> round_double (of_int m) = of_int m"
  using round_double_representable[of m 0] by simp

lemma round_double_numeral [simp]:
  "(numeral w :: int) < 2 ^ 53 \<Longrightarrow> round_double (numeral w) = numeral w"
  using round_double_of_int[of "numeral w"] by simp

lemma round_double_half [simp]: "round_double (1 / 2) = 1 / 2"
  using round_double_representable[of 1 "- 1"] by (simp add: power_int_minus)

section \<open>Properties of the mirror\<close>

lemma mirrored_twice:
  "mirrored_modifiers ! modifier_index (mirrored_modifiers ! modifier_index m) = m"
  by (cases m) (simp_all add: mirrored_modifiers_def)

lemma mirror_unchanged:
  "\<not> angularDeviation (angle (turn road)) 0 > epsilon \<Longrightarrow> mirror road = road"
  by (simp add: mirror_def)

lemma mirror_changed:
  assumes "angularDeviation (angle (turn road)) 0 > epsilon"
  shows "angle (turn (mirror road)) = double_sub 360 (angle (turn road))"
    and "direction_modifier (instruction (turn (mirror road))) =
         mirrored_modifiers ! modifier_index (direction_modifier (instruction (turn road)))"
    and "type (instruction (turn (mirror road))) = type (instruction (turn road))"
  using assms by (simp_all add: mirror_def)

text \<open>
  An angle that keeps a distance of \<open>2^-43\<close> from both ends of the circle deviates from 0
  by more than epsilon, also after the two roundings of the test.
\<close>

lemma deviates_in_range:
  assumes lo: "1 / 2 ^ 43 - 360 / 2 ^ 53 \<le> a" and hi: "a \<le> 360 - 1 / 2 ^ 43 + 360 / 2 ^ 53"
  shows "angularDeviation a 0 > epsilon"
proof -
  define margin :: real where "margin = 1 / 2 ^ 43"
  define d :: real where "d = 360 / 2 ^ 53"
  have sizes: "0 < d" "2 * d + 2 * epsilon < margin" "margin < 1" "0 < epsilon"
    by (simp_all add: margin_def d_def epsilon_def)
  have lo': "margin - d \<le> a" and hi': "a \<le> 360 - margin + d"
    using lo hi by (simp_all add: margin_def d_def)
  have a: "0 \<le> a" "a \<le> 360" using lo' hi' sizes by linarith+
  define r where "r = round_double a"
  have "\<bar>r - a\<bar> \<le> d" using round_double_near[OF a] by (simp add: r_def d_def)
  then have r_lo: "margin - 2 * d \<le> r" and r_hi: "r \<le> 360 - margin + 2 * d"
    using lo' hi' by linarith+
  have r_pos: "0 \<le> r" using r_lo sizes by linarith
  then have abs_r: "\<bar>r\<bar> = r" by simp
  have gap: "margin - 2 * d \<le> 360 - r" using r_hi by linarith
  then have "0 \<le> 360 - r" using sizes by linarith
  from round_double_lower[OF this]
  have "360 - r \<le> 2 * round_double (360 - r)" by simp
  with gap have "margin - 2 * d \<le> 2 * round_double (360 - r)" by (rule order_trans)
  with sizes(2) have "2 * epsilon < 2 * round_double (360 - r)" by linarith
  then have "epsilon < round_double (360 - r)" by simp
  moreover have "epsilon < r" using r_lo sizes by linarith
  ultimately show ?thesis
    by (simp add: angularDeviation_def Let_def double_sub_def abs_r flip: r_def)
qed

text \<open>
  Claim C5, as the code has it. A road whose turn angle deviates from 0 by no more than
  epsilon is left as it is by \<open>mirror\<close>, so also by two of them. A road whose turn angle
  lies between \<open>2^-43\<close> and \<open>360 - 2^-43\<close> gets its direction modifier (and its turn type)
  back from two mirrors, and an angle within \<open>2^-43\<close> of the one it had: each of the two
  subtractions from 360 rounds.
\<close>

theorem mirror_twice:
  "(\<not> angularDeviation (angle (turn road)) 0 > epsilon \<longrightarrow> mirror (mirror road) = road) \<and>
   (1 / 2 ^ 43 \<le> angle (turn road) \<and> angle (turn road) \<le> 360 - 1 / 2 ^ 43 \<longrightarrow>
      direction_modifier (instruction (turn (mirror (mirror road)))) =
        direction_modifier (instruction (turn road)) \<and>
      type (instruction (turn (mirror (mirror road)))) = type (instruction (turn road)) \<and>
      angle (turn (mirror (mirror road))) = double_sub 360 (double_sub 360 (angle (turn road))) \<and>
      \<bar>angle (turn (mirror (mirror road))) - angle (turn road)\<bar> \<le> 1 / 2 ^ 43)"
proof (intro conjI impI)
  assume "\<not> angularDeviation (angle (turn road)) 0 > epsilon"
  then show "mirror (mirror road) = road" by (simp add: mirror_unchanged)
next
  define margin :: real where "margin = 1 / 2 ^ 43"
  define d :: real where "d = 360 / 2 ^ 53"
  define a where "a = angle (turn road)"
  define y where "y = double_sub 360 a"
  define z where "z = double_sub 360 y"
  have sizes: "0 < d" "2 * d \<le> margin" "margin < 1"
    by (simp_all add: margin_def d_def)
  assume "1 / 2 ^ 43 \<le> angle (turn road) \<and> angle (turn road) \<le> 360 - 1 / 2 ^ 43"
  then have range: "margin \<le> a" "a \<le> 360 - margin" by (simp_all add: margin_def a_def)
  have first: "angularDeviation a 0 > epsilon"
    using range sizes by (intro deviates_in_range) (simp_all add: margin_def d_def)
  have "0 \<le> 360 - a" "360 - a \<le> 360" using range sizes by linarith+
  from round_double_near[OF this]
  have y_err: "\<bar>y - (360 - a)\<bar> \<le> d" by (simp add: double_sub_def y_def d_def)
  then have y_lo: "margin - d \<le> y" and y_hi: "y \<le> 360 - margin + d"
    using range by linarith+
  have y_angle: "angle (turn (mirror road)) = y"
    using mirror_changed(1)[of road] first by (simp add: a_def y_def)
  have second: "angularDeviation y 0 > epsilon"
    using y_lo y_hi by (intro deviates_in_range) (simp_all add: margin_def d_def)
  have "0 \<le> 360 - y" "360 - y \<le> 360" using y_lo y_hi sizes by linarith+
  from round_double_near[OF this]
  have z_err: "\<bar>z - (360 - y)\<bar> \<le> d" by (simp add: double_sub_def z_def d_def)
  have first': "angularDeviation (angle (turn road)) 0 > epsilon"
    using first by (simp add: a_def)
  have second': "angularDeviation (angle (turn (mirror road))) 0 > epsilon"
    using second y_angle by simp
  have z_angle: "angle (turn (mirror (mirror road))) = z"
    using mirror_changed(1)[OF second'] y_angle by (simp add: z_def)
  show "angle (turn (mirror (mirror road))) = double_sub 360 (double_sub 360 (angle (turn road)))"
    using z_angle by (simp add: z_def y_def a_def)
  have "\<bar>z - a\<bar> \<le> margin" using y_err z_err sizes by linarith
  then show "\<bar>angle (turn (mirror (mirror road))) - angle (turn road)\<bar> \<le> 1 / 2 ^ 43"
    using z_angle by (simp add: a_def margin_def)
  show "direction_modifier (instruction (turn (mirror (mirror road)))) =
        direction_modifier (instruction (turn road))"
    using mirror_changed(2)[OF second'] mirror_changed(2)[OF first']
    by (simp add: mirrored_twice)
  show "type (instruction (turn (mirror (mirror road)))) = type (instruction (turn road))"
    using mirror_changed(3)[OF second'] mirror_changed(3)[OF first'] by simp
qed

theorem mirror_twice_witness:
  "mirror \<lparr>turn = \<lparr>angle = 30,
      instruction = \<lparr>type = OtherTurnType 3, direction_modifier = SlightRight\<rparr>\<rparr>\<rparr> =
     \<lparr>turn = \<lparr>angle = 330,
      instruction = \<lparr>type = OtherTurnType 3, direction_modifier = SlightLeft\<rparr>\<rparr>\<rparr> \<and>
   direction_modifier (instruction (turn (mirror (mirror
     \<lparr>turn = \<lparr>angle = 30,
      instruction = \<lparr>type = OtherTurnType 3, direction_modifier = SlightRight\<rparr>\<rparr>\<rparr>)))) =
     SlightRight \<and>
   angle (turn (mirror (mirror
     \<lparr>turn = \<lparr>angle = 30,
      instruction = \<lparr>type = OtherTurnType 3, direction_modifier = SlightRight\<rparr>\<rparr>\<rparr>))) = 30 \<and>
   mirror (mirror \<lparr>turn = \<lparr>angle = 0,
      instruction = \<lparr>type = OtherTurnType 3, direction_modifier = Straight\<rparr>\<rparr>\<rparr>) =
     \<lparr>turn = \<lparr>angle = 0,
      instruction = \<lparr>type = OtherTurnType 3, direction_modifier = Straight\<rparr>\<rparr>\<rparr>"
proof -
  let ?road = "\<lparr>turn = \<lparr>angle = 30,
      instruction = \<lparr>type = OtherTurnType 3, direction_modifier = SlightRight\<rparr>\<rparr>\<rparr>"
  let ?straight = "\<lparr>turn = \<lparr>angle = 0,
      instruction = \<lparr>type = OtherTurnType 3, direction_modifier = Straight\<rparr>\<rparr>\<rparr>"
  have dev: "angularDeviation 30 0 = 30" "angularDeviation 0 0 = 0"
    by (simp_all add: angularDeviation_def double_sub_def)
  have once: "mirror ?road = \<lparr>turn = \<lparr>angle = 330,
      instruction = \<lparr>type = OtherTurnType 3, direction_modifier = SlightLeft\<rparr>\<rparr>\<rparr>"
    by (simp add: mirror_def dev epsilon_def double_sub_def mirrored_modifiers_def)
  from mirror_twice[of ?road] mirror_twice[of ?straight] once
  show ?thesis
    by (simp add: dev epsilon_def double_sub_def)
qed

text \<open>
  The claim as the spec states it fails for an angle just above epsilon: \<open>360 - 2^-51\<close>
  rounds to 360, which does not deviate from 0, so the second mirror changes nothing and
  the road keeps the mirrored modifier and the angle 360.
\<close>

lemma round_double_below_360: "round_double (360 - 1 / 2 ^ 51) = 360"
proof -
  let ?x = "360 - 1 / 2 ^ 51 :: real"
  have b: "2 powi 8 \<le> \<bar>?x\<bar>" "\<bar>?x\<bar> < 2 powi (8 + 1)" by simp_all
  have "?x / 2 powi (8 - 52) = 360 * 2 ^ 44 - 1 / 2 ^ 7"
    by (simp add: power_int_minus field_simps)
  moreover have "round_to_even (360 * 2 ^ 44 - 1 / 2 ^ 7) = 360 * 2 ^ 44"
  proof -
    have "\<lfloor>360 * 2 ^ 44 - 1 / 2 ^ 7 :: real\<rfloor> = 360 * 2 ^ 44 - 1"
      by (rule floor_unique) simp_all
    then show ?thesis by (simp add: round_to_even_def Let_def)
  qed
  ultimately show ?thesis
    unfolding round_double_at[OF b] by (simp add: power_int_minus)
qed

lemma round_double_tiny: "round_double (1 / 2 ^ 51) = 1 / 2 ^ 51"
  using round_double_representable[of 1 "- 51"] by (simp add: power_int_minus)

theorem mirror_twice_near_zero:
  "mirror (mirror \<lparr>turn = \<lparr>angle = 1 / 2 ^ 51,
      instruction = \<lparr>type = OtherTurnType 3, direction_modifier = SlightRight\<rparr>\<rparr>\<rparr>) =
     \<lparr>turn = \<lparr>angle = 360,
      instruction = \<lparr>type = OtherTurnType 3, direction_modifier = SlightLeft\<rparr>\<rparr>\<rparr>"
proof -
  define t :: real where "t = 1 / 2 ^ 51"
  have t1: "round_double t = t" unfolding t_def by (rule round_double_tiny)
  have t2: "round_double (360 - t) = 360" unfolding t_def by (rule round_double_below_360)
  have t3: "0 < t" "t < 360" "epsilon < t" by (simp_all add: t_def epsilon_def)
  note t = t1 t2 t3
  have small: "angularDeviation t 0 = t"
    using t by (simp add: angularDeviation_def double_sub_def)
  have full: "angularDeviation 360 0 = 0"
    by (simp add: angularDeviation_def double_sub_def)
  have once: "mirror \<lparr>turn = \<lparr>angle = t,
      instruction = \<lparr>type = OtherTurnType 3, direction_modifier = SlightRight\<rparr>\<rparr>\<rparr> =
     \<lparr>turn = \<lparr>angle = 360,
      instruction = \<lparr>type = OtherTurnType 3, direction_modifier = SlightLeft\<rparr>\<rparr>\<rparr>"
    using t by (simp add: mirror_def small double_sub_def mirrored_modifiers_def)
  have "mirror (mirror \<lparr>turn = \<lparr>angle = t,
      instruction = \<lparr>type = OtherTurnType 3, direction_modifier = SlightRight\<rparr>\<rparr>\<rparr>) =
     \<lparr>turn = \<lparr>angle = 360,
      instruction = \<lparr>type = OtherTurnType 3, direction_modifier = SlightLeft\<rparr>\<rparr>\<rparr>"
    unfolding once by (simp add: mirror_def full epsilon_def)
  then show ?thesis unfolding t_def .
qed

section \<open>Properties of the lane string trimmer\<close>

lemma int32_of_size_small: "n < 2 ^ 31 \<Longrightarrow> int32_of_size n = int n"
  by (simp add: int32_of_size_def)

lemma int32_of_size_le: "int32_of_size n \<le> int n"
proof -
  have "(int n + 2 ^ 31) mod 2 ^ 32 \<le> int n + 2 ^ 31"
    by (rule zmod_le_nonneg_dividend) simp
  then show ?thesis by (simp add: int32_of_size_def)
qed

lemma left_scan_stop: "\<not> i < n \<Longrightarrow> left_scan s n i sane = Inr sane"
  by (subst left_scan.simps) simp

lemma left_scan_end:
  "i < n \<Longrightarrow> nat i = length s \<Longrightarrow> left_scan s n i sane = Inr False"
  by (subst left_scan.simps) (simp add: char_at_def)

lemma left_scan_break:
  "i < n \<Longrightarrow> nat i < length s \<Longrightarrow> s ! nat i \<noteq> CHR ''|'' \<Longrightarrow> s ! nat i \<noteq> CHR ''&'' \<Longrightarrow>
   left_scan s n i sane = Inr False"
  by (subst left_scan.simps) (simp add: char_at_def)

lemma left_scan_step:
  "i < n \<Longrightarrow> nat i < length s \<Longrightarrow> s ! nat i = CHR ''|'' \<or> s ! nat i = CHR ''&'' \<Longrightarrow>
   left_scan s n i sane = left_scan s n (i + 1) sane"
  by (subst left_scan.simps) (auto simp: char_at_def)

lemma left_scan_total:
  "0 \<le> i \<Longrightarrow> i \<le> int (length s) \<Longrightarrow> \<exists>b. left_scan s n i sane = Inr b \<and> (b \<longrightarrow> sane)"
proof (induction s n i sane rule: left_scan.induct)
  case (1 s n i sane)
  show ?case
  proof (cases "i < n")
    case False
    then show ?thesis by (simp add: left_scan_stop)
  next
    case True
    show ?thesis
    proof (cases "i = int (length s)")
      case True
      with \<open>i < n\<close> show ?thesis by (auto simp: left_scan_end)
    next
      case False
      with "1.prems" have lt: "nat i < length s" by simp
      then have c: "char_at s (nat i) = Inr (s ! nat i)" by (simp add: char_at_def)
      show ?thesis
      proof (cases "s ! nat i \<noteq> CHR ''|'' \<and> s ! nat i \<noteq> CHR ''&''")
        case True
        with \<open>i < n\<close> lt show ?thesis by (auto simp: left_scan_break)
      next
        case False
        have "\<exists>b. left_scan s n (i + 1) sane = Inr b \<and> (b \<longrightarrow> sane)"
          using "1.IH"[OF \<open>i < n\<close> c] False "1.prems" lt by auto
        moreover have "left_scan s n i sane = left_scan s n (i + 1) sane"
          using left_scan_step[OF \<open>i < n\<close> lt] False by blast
        ultimately show ?thesis by simp
      qed
    qed
  qed
qed

lemma left_scan_placeholders:
  "0 \<le> i \<Longrightarrow> n \<le> int (length s) \<Longrightarrow>
   \<forall>c\<in>set s. c = CHR ''|'' \<or> c = CHR ''&'' \<Longrightarrow> left_scan s n i sane = Inr sane"
proof (induction s n i sane rule: left_scan.induct)
  case (1 s n i sane)
  show ?case
  proof (cases "i < n")
    case False
    then show ?thesis by (simp add: left_scan_stop)
  next
    case True
    with "1.prems" have lt: "nat i < length s" by simp
    then have c: "char_at s (nat i) = Inr (s ! nat i)" by (simp add: char_at_def)
    from lt "1.prems"(3) have p: "s ! nat i = CHR ''|'' \<or> s ! nat i = CHR ''&''"
      using nth_mem by blast
    then have np: "\<not> (s ! nat i \<noteq> CHR ''|'' \<and> s ! nat i \<noteq> CHR ''&'')" by blast
    have "left_scan s n (i + 1) sane = Inr sane"
      using "1.IH"[OF True c np] "1.prems" by simp
    with left_scan_step[OF True lt p] show ?thesis by simp
  qed
qed

lemma right_scan_in_range:
  "0 \<le> n \<Longrightarrow> n \<le> int len \<Longrightarrow> \<exists>b. right_scan itr len n k sane = Inr b \<and> (b \<longrightarrow> sane)"
  by (induction itr len n k sane rule: right_scan.induct) auto

lemma right_scan_placeholders:
  "0 \<le> n \<Longrightarrow> n \<le> int len \<Longrightarrow> \<forall>c\<in>set itr. c = CHR ''|'' \<or> c = CHR ''&'' \<Longrightarrow>
   right_scan itr len n k sane = Inr sane"
  by (induction itr len n k sane rule: right_scan.induct) auto

lemma right_scan_beyond:
  "itr \<noteq> [] \<Longrightarrow> int len < n \<Longrightarrow> right_scan itr len n k sane = Inl undefined_behaviour"
  by (cases itr) simp_all

lemma trim_left_cases:
  assumes "0 \<le> cl"
  shows "trim_left s cl = Inr s \<or> (0 < cl \<and> cl < int (length s) \<and> trim_left s cl = Inr (drop (nat cl) s))"
proof (cases "cl = 0")
  case True
  then show ?thesis by (simp add: trim_left_def)
next
  case False
  obtain b where b: "left_scan s cl 0 (cl < int32_of_size (length s)) = Inr b"
    and imp: "b \<longrightarrow> cl < int32_of_size (length s)"
    using left_scan_total[of 0 s cl] by auto
  show ?thesis
  proof (cases b)
    case False
    with b \<open>cl \<noteq> 0\<close> show ?thesis by (simp add: trim_left_def)
  next
    case True
    with imp int32_of_size_le[of "length s"] have "cl < int (length s)" by simp
    with True b \<open>cl \<noteq> 0\<close> assms show ?thesis by (simp add: trim_left_def erase_front_def)
  qed
qed

lemma int32_of_size_mod:
  assumes "0 \<le> int32_of_size n"
  shows "int n mod 2 ^ 32 = int32_of_size n"
proof -
  let ?r = "(int n + 2 ^ 31) mod 2 ^ 32"
  have r: "2 ^ 31 \<le> ?r" "?r < 2 ^ 32" using assms by (simp_all add: int32_of_size_def)
  have "int n mod 2 ^ 32 = (?r - 2 ^ 31) mod 2 ^ 32"
    by (simp add: mod_diff_left_eq)
  also have "\<dots> = ?r - 2 ^ 31" using r by (simp add: mod_pos_pos_trivial)
  finally show ?thesis by (simp add: int32_of_size_def)
qed

lemma resize_amount_nonzero:
  assumes "0 < cr" "cr < int32_of_size n"
  shows "(int n - cr) mod 2 ^ 64 \<noteq> 0"
proof
  assume "(int n - cr) mod 2 ^ 64 = 0"
  then have "(2::int) ^ 64 dvd int n - cr" by (simp add: dvd_eq_mod_eq_0)
  moreover have "(2::int) ^ 32 dvd 2 ^ 64" by (simp add: le_imp_power_dvd)
  ultimately have "(2::int) ^ 32 dvd int n - cr" using dvd_trans by blast
  then have "(int n - cr) mod 2 ^ 32 = 0" by (simp add: dvd_eq_mod_eq_0)
  then have "(int n mod 2 ^ 32 - cr) mod 2 ^ 32 = 0" by (simp add: mod_diff_left_eq)
  then have z: "(int32_of_size n - cr) mod 2 ^ 32 = 0"
    using int32_of_size_mod[of n] assms by simp
  have "int32_of_size n < 2 ^ 31" by (simp add: int32_of_size_def)
  with assms have "0 < int32_of_size n - cr" "int32_of_size n - cr < 2 ^ 32" by simp_all
  then have "(int32_of_size n - cr) mod 2 ^ 32 = int32_of_size n - cr"
    by (simp add: mod_pos_pos_trivial)
  with z assms show False by simp
qed

lemma trim_right_cases:
  assumes "0 \<le> cr" and "cr \<le> int (length s)"
  shows "trim_right s cr = Inr s \<or>
    (0 < cr \<and> cr < int (length s) \<and>
     (\<exists>n>0. trim_right s cr = Inr (resize s n) \<and> (length s < 2 ^ 64 \<longrightarrow> n = length s - nat cr)))"
proof -
  obtain b where b: "right_scan (rev s) (length s) cr 0 (cr < int32_of_size (length s)) = Inr b"
    and imp: "b \<longrightarrow> cr < int32_of_size (length s)"
    using right_scan_in_range[OF assms, of "rev s" 0] by auto
  show ?thesis
  proof (cases "cr \<noteq> 0 \<and> b")
    case False
    with b show ?thesis by (auto simp: trim_right_def)
  next
    case True
    with imp have c: "cr < int32_of_size (length s)" by simp
    with int32_of_size_le[of "length s"] have lt: "cr < int (length s)" by simp
    let ?n = "nat ((int (length s) - cr) mod 2 ^ 64)"
    from True assms have pos: "0 < cr" by simp
    have nz: "0 < ?n" using resize_amount_nonzero[OF pos c]
      by (simp add: less_le)
    have small: "length s < 2 ^ 64 \<longrightarrow> ?n = length s - nat cr"
    proof
      assume b: "length s < 2 ^ 64"
      then have "int (length s) - cr < 2 ^ 64" using pos by simp
      moreover have "0 \<le> int (length s) - cr" using lt by simp
      ultimately have "(int (length s) - cr) mod 2 ^ 64 = int (length s) - cr"
        by (simp add: mod_pos_pos_trivial)
      then show "?n = length s - nat cr" using pos lt by simp
    qed
    have "trim_right s cr = Inr (resize s ?n)" using True b by (simp add: trim_right_def)
    with pos lt nz small show ?thesis by blast
  qed
qed

lemma resize_nonempty: "s \<noteq> [] \<Longrightarrow> 0 < n \<Longrightarrow> resize s n \<noteq> []"
  by (simp add: resize_def)

lemma trim_right_beyond:
  assumes "s \<noteq> []" and "int (length s) < cr"
  shows "trim_right s cr = Inl undefined_behaviour"
proof -
  from assms(2) have "cr \<noteq> 0" by auto
  moreover have "right_scan (rev s) (length s) cr 0 (cr < int32_of_size (length s)) =
      Inl undefined_behaviour"
    using assms by (intro right_scan_beyond) simp_all
  ultimately show ?thesis by (simp add: trim_right_def)
qed

text \<open>
  With counts that the string covers, a non-empty lane string stays non-empty and the
  function returns: a side is trimmed only when its count is below the size of the string
  as the code reads it (narrowed to 32 bits), which is never above the size itself.
\<close>

lemma trimLaneString_covered_counts:
  assumes "lane_string \<noteq> []" "0 \<le> count_left" "0 \<le> count_right"
    and "count_left + count_right \<le> int (length lane_string)"
  shows "\<exists>trimmed. trimLaneString lane_string count_left count_right = Inr trimmed \<and> trimmed \<noteq> []"
proof -
  from trim_left_cases[OF assms(2), of lane_string]
  obtain l where l: "trim_left lane_string count_left = Inr l" and ne: "l \<noteq> []"
    and len: "int (length lane_string) - count_left \<le> int (length l)"
    using assms(1,2) by auto
  from len assms(4) have "count_right \<le> int (length l)" by simp
  from trim_right_cases[OF assms(3) this] ne
  obtain r where "trim_right l count_right = Inr r" and "r \<noteq> []"
    by (auto simp: resize_nonempty)
  with l show ?thesis by (simp add: trimLaneString_def)
qed

text \<open>
  Claim C10, where it fails. The left block stops at the null character that
  \<open>lane_string[size()]\<close> reads, so a \<open>count_left\<close> beyond the string is a no-op. The right
  block has no such stop: its loop test forms \<open>rbegin() + count_right\<close> before the sanity
  flag is looked at, and for a non-empty string and a \<open>count_right\<close> above its size that
  iterator lies before \<open>begin()\<close>. The call is undefined; it does not return a string.
\<close>

theorem trimLaneString_right_count_beyond_size:
  assumes "lane_string \<noteq> []" and "0 \<le> count_left"
    and "int (length lane_string) < count_right"
  shows "trimLaneString lane_string count_left count_right = Inl undefined_behaviour"
proof -
  from trim_left_cases[OF assms(2), of lane_string]
  obtain l where l: "trim_left lane_string count_left = Inr l" and ne: "l \<noteq> []"
    and len: "length l \<le> length lane_string"
    using assms(1) by auto
  from len assms(3) have "int (length l) < count_right" by simp
  from trim_right_beyond[OF ne this] l show ?thesis by (simp add: trimLaneString_def)
qed

theorem trimLaneString_right_count_beyond_size_witness:
  "trimLaneString ''||'' 0 5 = Inl undefined_behaviour \<and> trimLaneString ''||'' 5 0 = Inr ''||''"
proof -
  have "trimLaneString ''||'' 5 0 = Inr ''||''"
    by (simp add: trimLaneString_def trim_left_def trim_right_def int32_of_size_def
        left_scan.simps char_at_def)
  then show ?thesis
    using trimLaneString_right_count_beyond_size[of "''||''" 0 5] by simp
qed

lemma trim_left_placeholders:
  assumes "\<forall>c\<in>set s. c = CHR ''|'' \<or> c = CHR ''&''" "0 \<le> cl" "cl < int (length s)"
    "length s < 2 ^ 31"
  shows "trim_left s cl = Inr (drop (nat cl) s)"
proof (cases "cl = 0")
  case True
  then show ?thesis by (simp add: trim_left_def)
next
  case False
  have "left_scan s cl 0 (cl < int32_of_size (length s)) = Inr (cl < int32_of_size (length s))"
    using assms by (intro left_scan_placeholders) simp_all
  moreover have "cl < int32_of_size (length s)"
    using assms by (simp add: int32_of_size_small)
  ultimately show ?thesis using False assms by (simp add: trim_left_def erase_front_def)
qed

lemma trim_right_placeholders:
  assumes "\<forall>c\<in>set s. c = CHR ''|'' \<or> c = CHR ''&''" "0 \<le> cr" "cr < int (length s)"
    "length s < 2 ^ 31"
  shows "trim_right s cr = Inr (take (length s - nat cr) s)"
proof (cases "cr = 0")
  case True
  then show ?thesis by (simp add: trim_right_def)
next
  case False
  have sane: "cr < int32_of_size (length s)"
    using assms by (simp add: int32_of_size_small)
  have "right_scan (rev s) (length s) cr 0 (cr < int32_of_size (length s)) =
      Inr (cr < int32_of_size (length s))"
    using assms by (intro right_scan_placeholders) simp_all
  with sane have scan: "right_scan (rev s) (length s) cr 0 (cr < int32_of_size (length s)) = Inr True"
    by simp
  have "int (length s) - cr < 2 ^ 64" using assms by simp
  moreover have "0 \<le> int (length s) - cr" using assms by simp
  ultimately have "(int (length s) - cr) mod 2 ^ 64 = int (length s) - cr"
    by (simp add: mod_pos_pos_trivial)
  then have "nat ((int (length s) - cr) mod 2 ^ 64) = length s - nat cr"
    using assms by simp
  with scan False show ?thesis by (simp add: trim_right_def resize_def)
qed

text \<open>
  Claim C9, for the strings whose size the 32-bit comparison of the code reads as it is.
  A lane string shorter than \<open>2^31\<close> characters, all of them \<open>'|'\<close> or \<open>'&'\<close>, with nonnegative
  counts whose sum is below its length: the result is the string without its first
  \<open>count_left\<close> and its last \<open>count_right\<close> characters, so exactly
  \<open>count_left + count_right\<close> characters are removed.
\<close>

theorem trimLaneString_safe_input:
  assumes "\<forall>c\<in>set lane_string. c = CHR ''|'' \<or> c = CHR ''&''"
    and "0 \<le> count_left" and "0 \<le> count_right"
    and "count_left + count_right < int (length lane_string)"
    and "length lane_string < 2 ^ 31"
  shows "\<exists>front trimmed back.
           trimLaneString lane_string count_left count_right = Inr trimmed \<and>
           lane_string = front @ trimmed @ back \<and>
           int (length front) = count_left \<and> int (length back) = count_right \<and>
           int (length trimmed) = int (length lane_string) - (count_left + count_right)"
proof -
  let ?l = "drop (nat count_left) lane_string"
  let ?t = "take (length ?l - nat count_right) ?l"
  have l: "trim_left lane_string count_left = Inr ?l"
    using assms by (intro trim_left_placeholders) simp_all
  have "\<forall>c\<in>set ?l. c = CHR ''|'' \<or> c = CHR ''&''"
    using assms(1) by (meson in_set_dropD)
  then have r: "trim_right ?l count_right = Inr ?t"
    using assms by (intro trim_right_placeholders) simp_all
  have run: "trimLaneString lane_string count_left count_right = Inr ?t"
    using l r by (simp add: trimLaneString_def)
  have split: "lane_string = take (nat count_left) lane_string @ ?t @ drop (length ?l - nat count_right) ?l"
    by (simp only: append_take_drop_id)
  have "int (length (take (nat count_left) lane_string)) = count_left"
    using assms by simp
  moreover have "int (length (drop (length ?l - nat count_right) ?l)) = count_right"
    using assms by simp
  moreover have "int (length ?t) = int (length lane_string) - (count_left + count_right)"
    using assms by simp
  ultimately show ?thesis using run split by blast
qed

theorem trimLaneString_safe_input_witness:
  "\<exists>front trimmed back.
     trimLaneString ''|&|||'' 1 2 = Inr trimmed \<and> ''|&|||'' = front @ trimmed @ back \<and>
     int (length front) = 1 \<and> int (length back) = 2 \<and> trimmed = ''&|''"
proof -
  have "trimLaneString ''|&|||'' 1 2 = Inr ''&|''"
    by (simp add: trimLaneString_def trim_left_def trim_right_def erase_front_def resize_def
        int32_of_size_def left_scan.simps char_at_def)
  then show ?thesis
    using trimLaneString_safe_input[of "''|&|||''" 1 2] by auto
qed

text \<open>
  Without the bound on the length the claim fails: the size of a string of \<open>2^31\<close> pipes
  narrows to \<open>- 2^31\<close>, no count is below it, and the string comes back untrimmed.
\<close>

theorem trimLaneString_huge_counterexample:
  "list_all (\<lambda>c. c = CHR ''|'' \<or> c = CHR ''&'') (replicate (2 ^ 31) (CHR ''|'')) \<and>
   (1::int) + 0 < int (length (replicate (2 ^ 31) (CHR ''|''))) \<and>
   trimLaneString (replicate (2 ^ 31) (CHR ''|'')) 1 0 = Inr (replicate (2 ^ 31) (CHR ''|''))"
proof -
  let ?s = "replicate (2 ^ 31) (CHR ''|'')"
  have "int32_of_size (length ?s) = - (2 ^ 31)" by (simp add: int32_of_size_def)
  then have init: "((1::int) < int32_of_size (length ?s)) = False" by simp
  have "left_scan ?s 1 0 False = left_scan ?s 1 (0 + 1) False"
    by (rule left_scan_step) simp_all
  also have "\<dots> = Inr False" by (simp add: left_scan_stop)
  finally have "trim_left ?s 1 = Inr ?s" using init by (simp add: trim_left_def)
  then have "trimLaneString ?s 1 0 = Inr ?s" by (simp add: trimLaneString_def trim_right_def)
  then show ?thesis by (simp add: list_all_iff)
qed

section \<open>Properties of the representative coordinate\<close>

lemma double_sub_pos: "a < b \<Longrightarrow> 0 < double_sub b a"
  by (simp add: double_sub_def round_double_pos)

lemma getFactor_Inr_iff:
  "(\<exists>factor. getFactor first_distance second_distance = Inr factor) \<longleftrightarrow>
   first_distance < DESIRED_SEGMENT_LENGTH \<and> DESIRED_SEGMENT_LENGTH \<le> second_distance"
  using double_sub_pos[of first_distance second_distance]
  by (auto simp: getFactor_def Let_def)

lemma getFactor_value:
  assumes "first_distance < DESIRED_SEGMENT_LENGTH"
    and "DESIRED_SEGMENT_LENGTH \<le> second_distance"
  shows "getFactor first_distance second_distance =
    Inr (max 0 (min (double_div (double_sub DESIRED_SEGMENT_LENGTH first_distance)
                       (double_sub second_distance first_distance)) 1))"
  using assms double_sub_pos[of first_distance second_distance]
  by (simp add: getFactor_def Let_def)

lemma nodes_in_range_Cons:
  "nodes_in_range qn (e # g) \<longleftrightarrow> node_id e < length qn \<and> nodes_in_range qn g"
  by (simp add: nodes_in_range_def)

lemma nodes_in_range_rev: "nodes_in_range qn (rev g) = nodes_in_range qn g"
  by (simp add: nodes_in_range_def list_all_iff)

lemma compressed_range_loop_total:
  assumes "nodes_in_range qn g" and "d < DESIRED_SEGMENT_LENGTH"
  shows "\<exists>c. compressed_range_loop hav interp cur d g final qn = Inr c"
  using assms
proof (induction g arbitrary: cur d)
  case Nil
  show ?case
  proof (cases "DESIRED_SEGMENT_LENGTH \<le> double_add d (hav cur final)")
    case True
    with Nil.prems(2) show ?thesis by (simp add: getFactor_value Let_def)
  next
    case False
    then show ?thesis by simp
  qed
next
  case (Cons e g)
  from Cons.prems(1) have e: "node_at qn (node_id e) = Inr (qn ! node_id e)"
    and rest: "nodes_in_range qn g"
    by (simp_all add: nodes_in_range_Cons node_at_def)
  let ?next = "extractCoordinateFromNode (qn ! node_id e)"
  show ?case
  proof (cases "DESIRED_SEGMENT_LENGTH \<le> double_add d (hav cur ?next)")
    case True
    with Cons.prems(2) e show ?thesis by (simp add: getFactor_value Let_def)
  next
    case False
    then have "double_add d (hav cur ?next) < DESIRED_SEGMENT_LENGTH" by simp
    from Cons.IH[OF rest this] False e show ?thesis by (simp add: Let_def)
  qed
qed

lemma compressed_range_loop_walked:
  assumes "nodes_in_range qn g" and "d < DESIRED_SEGMENT_LENGTH"
    and "stays_below_target hav cur d (geometry_coordinates qn g)"
  shows "compressed_range_loop hav interp cur d g final qn =
    (let reached = accumulated_distance hav cur d (geometry_coordinates qn g);
         last_coordinate = last (cur # geometry_coordinates qn g);
         edge_length = double_add reached (hav last_coordinate final)
     in if DESIRED_SEGMENT_LENGTH \<le> edge_length
        then Inr (interp (max 0 (min (double_div (double_sub DESIRED_SEGMENT_LENGTH reached)
                                (double_sub edge_length reached)) 1))
                    last_coordinate final)
        else Inr final)"
  using assms
proof (induction g arbitrary: cur d)
  case Nil
  then show ?case by (simp add: geometry_coordinates_def getFactor_value Let_def)
next
  case (Cons e g)
  from Cons.prems(1) have e: "node_at qn (node_id e) = Inr (qn ! node_id e)"
    and rest: "nodes_in_range qn g"
    by (simp_all add: nodes_in_range_Cons node_at_def)
  let ?next = "extractCoordinateFromNode (qn ! node_id e)"
  from Cons.prems(3) have below: "double_add d (hav cur ?next) < DESIRED_SEGMENT_LENGTH"
    and tail: "stays_below_target hav ?next (double_add d (hav cur ?next)) (geometry_coordinates qn g)"
    by (simp_all add: geometry_coordinates_def)
  have step: "compressed_range_loop hav interp cur d (e # g) final qn =
      compressed_range_loop hav interp ?next (double_add d (hav cur ?next)) g final qn"
    using e below by (simp add: Let_def)
  show ?case
    unfolding step Cons.IH[OF rest below tail]
    by (simp add: geometry_coordinates_def Let_def)
qed

text \<open>
  Claim C7. An edge without an entry in the compressed-edge container: the result is the
  coordinate of \<open>to_node\<close> when traversing forward and of \<open>from_node\<close> when traversing in
  reverse, whatever the distance function says about the edge's length, and the
  interpolation is not consulted. The node read must be a node of the table.
\<close>

theorem getRepresentativeCoordinate_uncompressed:
  assumes "\<not> HasEntryForID compressed_geometries via_edge_id"
    and "(if traverse_in_reverse then from_node else to_node) < length query_nodes"
  shows "getRepresentativeCoordinate haversineDistance interpolateLinear from_node to_node
           via_edge_id traverse_in_reverse compressed_geometries query_nodes =
         Inr (if traverse_in_reverse
              then extractCoordinateFromNode (query_nodes ! from_node)
              else extractCoordinateFromNode (query_nodes ! to_node))"
  using assms
  by (simp add: getRepresentativeCoordinate_def HasEntryForID_def node_at_def)

theorem getRepresentativeCoordinate_uncompressed_witness:
  "getRepresentativeCoordinate (\<lambda>a b. 5) (\<lambda>f a b. a) 0 1 7 False Map.empty
     [\<lparr>node_lon = 10, node_lat = 20\<rparr>, \<lparr>node_lon = 11, node_lat = 21\<rparr>] =
     Inr \<lparr>lon = 11, lat = 21\<rparr>
   \<and> getRepresentativeCoordinate (\<lambda>a b. 5) (\<lambda>f a b. a) 0 1 7 True Map.empty
     [\<lparr>node_lon = 10, node_lat = 20\<rparr>, \<lparr>node_lon = 11, node_lat = 21\<rparr>] =
     Inr \<lparr>lon = 10, lat = 20\<rparr>"
  using
    getRepresentativeCoordinate_uncompressed[of Map.empty 7 False 0 1
      "[\<lparr>node_lon = 10, node_lat = 20\<rparr>, \<lparr>node_lon = 11, node_lat = 21\<rparr>]" "\<lambda>a b. 5" "\<lambda>f a b. a"]
    getRepresentativeCoordinate_uncompressed[of Map.empty 7 True 0 1
      "[\<lparr>node_lon = 10, node_lat = 20\<rparr>, \<lparr>node_lon = 11, node_lat = 21\<rparr>]" "\<lambda>a b. 5" "\<lambda>f a b. a"]
  by (simp add: HasEntryForID_def extractCoordinateFromNode_def)

text \<open>
  Claim C6. A compressed edge whose intermediate nodes are all passed with the
  accumulated distance below the target: when the distance with the last segment, to the
  far endpoint, reaches the target, the result is the interpolation between the last
  intermediate coordinate and the far endpoint at the factor
  \<open>(target - reached) / segment length\<close> clamped to \<open>[0, 1]\<close>; when it does not, the result
  is the far endpoint itself. The distances are the code's doubles: \<open>reached\<close> and
  \<open>edge_length\<close> are the rounded sums, the tests are on them, and the difference, the
  segment length and the quotient of the factor are rounded.
\<close>

theorem getRepresentativeCoordinate_end_of_geometry:
  assumes "compressed_geometries via_edge_id = Some geometry"
    and "from_node < length query_nodes" and "to_node < length query_nodes"
    and "nodes_in_range query_nodes geometry"
    and "walk = geometry_coordinates query_nodes
                  (if traverse_in_reverse then rev geometry else geometry)"
    and "base = extractCoordinateFromNode
                  (query_nodes ! (if traverse_in_reverse then to_node else from_node))"
    and "final = extractCoordinateFromNode
                  (query_nodes ! (if traverse_in_reverse then from_node else to_node))"
    and "stays_below_target haversineDistance base 0 walk"
    and "reached = accumulated_distance haversineDistance base 0 walk"
    and "edge_length = double_add reached (haversineDistance (last (base # walk)) final)"
  shows "getRepresentativeCoordinate haversineDistance interpolateLinear from_node to_node
           via_edge_id traverse_in_reverse compressed_geometries query_nodes =
         (if DESIRED_SEGMENT_LENGTH \<le> edge_length
          then Inr (interpolateLinear
                      (max 0 (min (double_div (double_sub DESIRED_SEGMENT_LENGTH reached)
                                (double_sub edge_length reached)) 1))
                      (last (base # walk)) final)
          else Inr final)"
proof -
  let ?g = "if traverse_in_reverse then rev geometry else geometry"
  have range: "nodes_in_range query_nodes ?g"
    using assms(4) by (simp add: nodes_in_range_rev)
  have zero: "(0::real) < DESIRED_SEGMENT_LENGTH" by (simp add: DESIRED_SEGMENT_LENGTH_def)
  have below: "stays_below_target haversineDistance base 0 (geometry_coordinates query_nodes ?g)"
    using assms(5,8) by simp
  have "getRepresentativeCoordinate haversineDistance interpolateLinear from_node to_node
           via_edge_id traverse_in_reverse compressed_geometries query_nodes =
        compressed_range_loop haversineDistance interpolateLinear base 0 ?g final query_nodes"
    using assms(1,2,3,6,7)
    by (simp add: getRepresentativeCoordinate_def node_at_def
        getCoordinateFromCompressedRange_def Let_def)
  also have "\<dots> =
      (if DESIRED_SEGMENT_LENGTH \<le> edge_length
       then Inr (interpolateLinear
                   (max 0 (min (double_div (double_sub DESIRED_SEGMENT_LENGTH reached)
                                (double_sub edge_length reached)) 1))
                   (last (base # walk)) final)
       else Inr final)"
    unfolding compressed_range_loop_walked[OF range zero below]
    using assms(5,9,10) by (simp add: Let_def)
  finally show ?thesis .
qed

theorem getRepresentativeCoordinate_end_of_geometry_witness:
  "getRepresentativeCoordinate (\<lambda>a b. real_of_int \<bar>lon a - lon b\<bar>)
     (\<lambda>f a b. \<lparr>lon = lon a + \<lfloor>f * real_of_int (lon b - lon a)\<rfloor>, lat = lat a\<rparr>)
     0 3 7 False
     [7 \<mapsto> [\<lparr>node_id = 1, weight = 1\<rparr>, \<lparr>node_id = 2, weight = 1\<rparr>]]
     [\<lparr>node_lon = 0, node_lat = 0\<rparr>, \<lparr>node_lon = 3, node_lat = 0\<rparr>,
      \<lparr>node_lon = 6, node_lat = 0\<rparr>, \<lparr>node_lon = 14, node_lat = 0\<rparr>] =
   Inr \<lparr>lon = 10, lat = 0\<rparr>
   \<and> getRepresentativeCoordinate (\<lambda>a b. real_of_int \<bar>lon a - lon b\<bar>)
     (\<lambda>f a b. \<lparr>lon = lon a + \<lfloor>f * real_of_int (lon b - lon a)\<rfloor>, lat = lat a\<rparr>)
     3 0 7 True
     [7 \<mapsto> [\<lparr>node_id = 1, weight = 1\<rparr>, \<lparr>node_id = 2, weight = 1\<rparr>]]
     [\<lparr>node_lon = 0, node_lat = 0\<rparr>, \<lparr>node_lon = 4, node_lat = 0\<rparr>,
      \<lparr>node_lon = 2, node_lat = 0\<rparr>, \<lparr>node_lon = 7, node_lat = 0\<rparr>] =
   Inr \<lparr>lon = 7, lat = 0\<rparr>"
proof -
  let ?hav = "\<lambda>a b. real_of_int \<bar>lon a - lon b\<bar>"
  let ?g = "[\<lparr>node_id = 1, weight = 1\<rparr>, \<lparr>node_id = 2, weight = 1\<rparr>]"
  let ?far = "[\<lparr>node_lon = 0, node_lat = 0\<rparr>, \<lparr>node_lon = 3, node_lat = 0\<rparr>,
      \<lparr>node_lon = 6, node_lat = 0\<rparr>, \<lparr>node_lon = 14, node_lat = 0\<rparr>]"
  let ?near = "[\<lparr>node_lon = 0, node_lat = 0\<rparr>, \<lparr>node_lon = 4, node_lat = 0\<rparr>,
      \<lparr>node_lon = 2, node_lat = 0\<rparr>, \<lparr>node_lon = 7, node_lat = 0\<rparr>]"
  let ?cg = "[7 \<mapsto> ?g] :: CompressedEdgeContainer"
  have entry: "?cg 7 = Some ?g" by simp
  have far_range: "nodes_in_range ?far ?g" and near_range: "nodes_in_range ?near ?g"
    by (simp_all add: nodes_in_range_def)
  have far_below: "stays_below_target ?hav
      (extractCoordinateFromNode (?far ! (if False then 3 else 0))) 0
      (geometry_coordinates ?far (if False then rev ?g else ?g))"
    by (simp add: geometry_coordinates_def extractCoordinateFromNode_def
        DESIRED_SEGMENT_LENGTH_def double_add_def double_sub_def double_div_def)
  have near_below: "stays_below_target ?hav
      (extractCoordinateFromNode (?near ! (if True then 0 else 3))) 0
      (geometry_coordinates ?near (if True then rev ?g else ?g))"
    by (simp add: geometry_coordinates_def extractCoordinateFromNode_def
        DESIRED_SEGMENT_LENGTH_def double_add_def double_sub_def double_div_def)
  have len: "(0::nat) < length ?far" "(3::nat) < length ?far"
    "(0::nat) < length ?near" "(3::nat) < length ?near"
    by simp_all
  note forward = getRepresentativeCoordinate_end_of_geometry
    [where compressed_geometries = "?cg" and via_edge_id = 7 and traverse_in_reverse = False
       and haversineDistance = "?hav", OF entry len(1) len(2) far_range refl refl refl far_below refl refl]
  note backward = getRepresentativeCoordinate_end_of_geometry
    [where compressed_geometries = "?cg" and via_edge_id = 7 and traverse_in_reverse = True
       and haversineDistance = "?hav", OF entry len(4) len(3) near_range refl refl refl near_below refl refl]
  show ?thesis
    unfolding forward backward
    by (simp add: geometry_coordinates_def extractCoordinateFromNode_def
        DESIRED_SEGMENT_LENGTH_def double_add_def double_sub_def double_div_def)
qed

text \<open>
  The tests are on the rounded sums. With a first segment of length \<open>10 - 1 / 2 ^ 49\<close> and a
  second of length \<open>3 / 2 ^ 51\<close> the exact sum is below the target and the sum of doubles
  is the target itself: the walk stops at the second intermediate node and interpolates
  on the segment that leads to it.
\<close>

lemma rounded_sum_reaches_target: "double_add (10 - 1 / 2 ^ 49) (3 / 2 ^ 51) = 10"
proof -
  let ?x = "10 - 1 / 2 ^ 51 :: real"
  have b: "2 powi 3 \<le> \<bar>?x\<bar>" "\<bar>?x\<bar> < 2 powi (3 + 1)" by simp_all
  have "?x / 2 powi (3 - 52) = 10 * 2 ^ 49 - 1 / 2 ^ 2"
    by (simp add: power_int_minus field_simps)
  moreover have "round_to_even (10 * 2 ^ 49 - 1 / 2 ^ 2) = 10 * 2 ^ 49"
  proof -
    have "\<lfloor>10 * 2 ^ 49 - 1 / 2 ^ 2 :: real\<rfloor> = 10 * 2 ^ 49 - 1"
      by (rule floor_unique) simp_all
    then show ?thesis by (simp add: round_to_even_def Let_def)
  qed
  ultimately have "round_double ?x = 10"
    unfolding round_double_at[OF b] by (simp add: power_int_minus)
  moreover have "10 - 1 / 2 ^ 49 + 3 / 2 ^ 51 = ?x" by simp
  ultimately show ?thesis unfolding double_add_def by (simp only:)
qed

lemma first_segment_representable: "round_double (10 - 1 / 2 ^ 49) = 10 - 1 / 2 ^ 49"
proof -
  have "round_double (of_int (10 * 2 ^ 49 - 1) * 2 powi (- 49)) =
        of_int (10 * 2 ^ 49 - 1) * 2 powi (- 49)"
    by (rule round_double_representable) simp
  moreover have "of_int (10 * 2 ^ 49 - 1) * 2 powi (- 49) = (10 - 1 / 2 ^ 49 :: real)"
    by (simp add: power_int_minus field_simps)
  ultimately show ?thesis by (simp only:)
qed

lemma getRepresentativeCoordinate_rounded_sum:
  "getRepresentativeCoordinate
     (\<lambda>a b. if lon a = 0 then 10 - 1 / 2 ^ 49 else if lon a = 1 then 3 / 2 ^ 51 else 5)
     (\<lambda>f a b. a) 0 3 7 False
     [7 \<mapsto> [\<lparr>node_id = 1, weight = 1\<rparr>, \<lparr>node_id = 2, weight = 1\<rparr>]]
     [\<lparr>node_lon = 0, node_lat = 0\<rparr>, \<lparr>node_lon = 1, node_lat = 0\<rparr>,
      \<lparr>node_lon = 2, node_lat = 0\<rparr>, \<lparr>node_lon = 3, node_lat = 0\<rparr>] =
   Inr \<lparr>lon = 1, lat = 0\<rparr>"
proof -
  define a :: real where "a = 10 - 1 / 2 ^ 49"
  define b :: real where "b = 3 / 2 ^ 51"
  have first_sum: "double_add 0 a = a"
    unfolding a_def double_add_def using first_segment_representable by simp
  have second_sum: "double_add a b = 10"
    unfolding a_def b_def by (rule rounded_sum_reaches_target)
  have below: "a < 10" by (simp add: a_def)
  have "getRepresentativeCoordinate
     (\<lambda>c d. if lon c = 0 then a else if lon c = 1 then b else 5)
     (\<lambda>f a b. a) 0 3 7 False
     [7 \<mapsto> [\<lparr>node_id = 1, weight = 1\<rparr>, \<lparr>node_id = 2, weight = 1\<rparr>]]
     [\<lparr>node_lon = 0, node_lat = 0\<rparr>, \<lparr>node_lon = 1, node_lat = 0\<rparr>,
      \<lparr>node_lon = 2, node_lat = 0\<rparr>, \<lparr>node_lon = 3, node_lat = 0\<rparr>] =
   Inr \<lparr>lon = 1, lat = 0\<rparr>"
    using below
    by (simp add: getRepresentativeCoordinate_def getCoordinateFromCompressedRange_def
        node_at_def extractCoordinateFromNode_def DESIRED_SEGMENT_LENGTH_def Let_def
        first_sum second_sum getFactor_value)
  then show ?thesis unfolding a_def b_def .
qed

lemma getFactor_Inr_state:
  assumes "getFactor first_distance second_distance = Inr factor"
  shows "first_distance < DESIRED_SEGMENT_LENGTH \<and> DESIRED_SEGMENT_LENGTH \<le> second_distance \<and>
         0 < second_distance - first_distance \<and>
         0 < double_sub second_distance first_distance \<and> 0 \<le> factor \<and> factor \<le> 1"
  using assms by (auto simp: getFactor_def Let_def split: if_splits)

text \<open>
  Claim C8. On a well-formed input (the two end nodes and every node of the edge's bucket
  are nodes of the table) \<open>getRepresentativeCoordinate\<close> returns a coordinate, for every
  distance function, so also one that gives segments of length zero: no assertion of
  \<open>getFactor\<close> fails and no read is out of range. A call of \<open>getFactor\<close> that returns was
  made with the distance so far below the target and the next distance at or above it,
  its divisor, the rounded difference of the two, was positive, as the exact difference
  is, and its factor lies in \<open>[0, 1]\<close>; a call made in any other state is a fault of the
  model, and there is none.
\<close>

theorem getRepresentativeCoordinate_no_fault:
  assumes "from_node < length query_nodes" and "to_node < length query_nodes"
    and "\<forall>geometry. compressed_geometries via_edge_id = Some geometry \<longrightarrow>
           nodes_in_range query_nodes geometry"
  shows "(\<exists>coordinate.
           getRepresentativeCoordinate haversineDistance interpolateLinear from_node to_node
             via_edge_id traverse_in_reverse compressed_geometries query_nodes = Inr coordinate) \<and>
         (\<forall>first_distance second_distance factor.
           getFactor first_distance second_distance = Inr factor \<longrightarrow>
             first_distance < DESIRED_SEGMENT_LENGTH \<and>
             DESIRED_SEGMENT_LENGTH \<le> second_distance \<and>
             0 < second_distance - first_distance \<and>
             0 < double_sub second_distance first_distance \<and> 0 \<le> factor \<and> factor \<le> 1)"
proof (intro conjI allI impI)
  fix first_distance second_distance factor
  assume "getFactor first_distance second_distance = Inr factor"
  then show "first_distance < DESIRED_SEGMENT_LENGTH"
    and "DESIRED_SEGMENT_LENGTH \<le> second_distance"
    and "0 < second_distance - first_distance"
    and "0 < double_sub second_distance first_distance" and "0 \<le> factor" and "factor \<le> 1"
    using getFactor_Inr_state by blast+
next
  show "\<exists>coordinate.
           getRepresentativeCoordinate haversineDistance interpolateLinear from_node to_node
             via_edge_id traverse_in_reverse compressed_geometries query_nodes = Inr coordinate"
  proof (cases "compressed_geometries via_edge_id")
  case None
  with assms(1,2) show ?thesis
    by (simp add: getRepresentativeCoordinate_def node_at_def)
next
  case (Some geometry)
  let ?g = "if traverse_in_reverse then rev geometry else geometry"
  have range: "nodes_in_range query_nodes ?g"
    using assms(3) Some by (simp add: nodes_in_range_rev)
  have zero: "(0::real) < DESIRED_SEGMENT_LENGTH" by (simp add: DESIRED_SEGMENT_LENGTH_def)
  have run: "getRepresentativeCoordinate haversineDistance interpolateLinear from_node to_node
      via_edge_id traverse_in_reverse compressed_geometries query_nodes =
    compressed_range_loop haversineDistance interpolateLinear
      (extractCoordinateFromNode (query_nodes ! (if traverse_in_reverse then to_node else from_node)))
      0 ?g
      (extractCoordinateFromNode (query_nodes ! (if traverse_in_reverse then from_node else to_node)))
      query_nodes"
    using Some assms(1,2)
    by (simp add: getRepresentativeCoordinate_def node_at_def
        getCoordinateFromCompressedRange_def Let_def)
  show ?thesis
    unfolding run by (rule compressed_range_loop_total[OF range zero])
qed
qed

theorem getRepresentativeCoordinate_no_fault_witness:
  "\<exists>coordinate.
     getRepresentativeCoordinate (\<lambda>a b. real_of_int \<bar>lon a - lon b\<bar>) (\<lambda>f a b. b)
       0 3 7 False
       [7 \<mapsto> [\<lparr>node_id = 1, weight = 1\<rparr>, \<lparr>node_id = 2, weight = 1\<rparr>]]
       [\<lparr>node_lon = 0, node_lat = 0\<rparr>, \<lparr>node_lon = 0, node_lat = 0\<rparr>,
        \<lparr>node_lon = 12, node_lat = 0\<rparr>, \<lparr>node_lon = 12, node_lat = 0\<rparr>] = Inr coordinate"
proof -
  let ?qn = "[\<lparr>node_lon = 0, node_lat = 0\<rparr>, \<lparr>node_lon = 0, node_lat = 0\<rparr>,
        \<lparr>node_lon = 12, node_lat = 0\<rparr>, \<lparr>node_lon = 12, node_lat = 0\<rparr>]"
  let ?cg = "[7 \<mapsto> [\<lparr>node_id = 1, weight = 1\<rparr>, \<lparr>node_id = 2, weight = 1\<rparr>]]
    :: CompressedEdgeContainer"
  have "(0::nat) < length ?qn" and "(3::nat) < length ?qn"
    and "\<forall>geometry. ?cg 7 = Some geometry \<longrightarrow> nodes_in_range ?qn geometry"
    by (simp_all add: nodes_in_range_def)
  from getRepresentativeCoordinate_no_fault
    [where compressed_geometries = "?cg" and via_edge_id = 7, OF this]
  show ?thesis by blast
qed

section \<open>Properties of the name matcher\<close>

subsection \<open>The string operations\<close>

lemma find_first_from_eq:
  "find_first_from s c i =
    (if c \<in> set s then i + length (takeWhile (\<lambda>x. x \<noteq> c) s) else npos)"
  by (induction s arbitrary: i) auto

lemma find_first_of_eq:
  "find_first_of s c = (if c \<in> set s then length (takeWhile (\<lambda>x. x \<noteq> c) s) else npos)"
  by (simp add: find_first_of_def find_first_from_eq)

lemma takeWhile_stops: "c \<in> set s \<Longrightarrow> length (takeWhile (\<lambda>x. x \<noteq> c) s) < length s"
  by (induction s) auto

lemma find_first_of_bound: "find_first_of s c \<noteq> npos \<Longrightarrow> find_first_of s c < length s"
  by (auto simp: find_first_of_eq takeWhile_stops split: if_splits)

lemma find_last_from_eq:
  "find_last_from s c i =
    (if c \<in> set s then i - length (takeWhile (\<lambda>x. x \<noteq> c) s) else npos)"
  by (induction s arbitrary: i) auto

lemma find_last_of_bound: "find_last_of s c \<noteq> npos \<Longrightarrow> find_last_of s c < length s"
proof -
  assume found: "find_last_of s c \<noteq> npos"
  then have "c \<in> set s"
    by (auto simp: find_last_of_def find_last_from_eq split: if_splits)
  then have "s \<noteq> []" by auto
  then have "length s - 1 - length (takeWhile (\<lambda>x. x \<noteq> c) (rev s)) < length s"
    by (cases s) simp_all
  with \<open>c \<in> set s\<close> show ?thesis
    by (simp add: find_last_of_def find_last_from_eq)
qed

lemma substr_ok: "pos \<le> length s \<Longrightarrow> substr s pos n = Inr (take n (drop pos s))"
  by (simp add: substr_def)

lemma size_add_le: "size_add a b \<le> a + b"
  by (simp add: size_add_def)

lemma size_sub_exact: "b \<le> a \<Longrightarrow> a < 2 ^ 64 \<Longrightarrow> size_sub a b = a - b"
proof -
  assume le: "b \<le> a" and lt: "a < 2 ^ 64"
  have "int a < 2 ^ 64" using lt by (metis of_nat_less_iff of_nat_numeral of_nat_power)
  then have "(int a - int b) mod 2 ^ 64 = int a - int b"
    using le by (simp add: mod_pos_pos_trivial)
  then show ?thesis using le by (simp add: size_sub_def)
qed

lemma length_to_lower [simp]: "length (to_lower s) = length s"
  by (simp add: to_lower_def)

lemma compare_chars_eq: "compare_chars xs ys = 0 \<longleftrightarrow> xs = ys"
proof (induction xs ys rule: compare_chars.induct)
  case (4 x xs y ys)
  have "(of_char x :: nat) = of_char y \<longleftrightarrow> x = y" by (rule of_char_eq_iff)
  with 4 show ?case by (auto simp: not_less)
qed simp_all

lemma compare_ok:
  "pos1 \<le> length s \<Longrightarrow> pos2 \<le> length str \<Longrightarrow>
   compare s pos1 count1 str pos2 count2 =
     Inr (compare_chars (take count1 (drop pos1 s)) (take count2 (drop pos2 str)))"
  by (simp add: compare_def)




subsection \<open>The functions of the toolkit return\<close>

lemma substr_after:
  "b < length s \<Longrightarrow> substr s (size_add b 1) n = Inr (take n (drop (size_add b 1) s))"
  using size_add_le[of b 1] by (intro substr_ok) simp

lemma substr_front: "substr s 0 n = Inr (take n s)"
  by (simp add: substr_ok)

lemma split_name_no_parenthesis:
  "find_first_of name (CHR ''('') = npos \<Longrightarrow> split_name name out = Inr (name, snd out)"
  by (simp add: split_name_def)

lemma split_name_parenthesis:
  assumes "find_first_of name (CHR ''('') \<noteq> npos"
  shows "split_name name out =
    Inr (if find_first_of name (CHR ''('') \<noteq> 0
         then take (size_sub (find_first_of name (CHR ''('')) 1) name else fst out,
         take (size_sub (size_sub (find_first_of name (CHR '')'')) (find_first_of name (CHR ''(''))) 1)
           (drop (size_add (find_first_of name (CHR ''('')) 1) name))"
proof -
  from assms have b: "find_first_of name (CHR ''('') < length name"
    by (rule find_first_of_bound)
  show ?thesis
    unfolding split_name_def Let_def substr_front substr_after[OF b]
    using assms by simp
qed


lemma getPrefixAndSuffix_no_space:
  "find_last_of data (CHR '' '') = npos \<Longrightarrow> getPrefixAndSuffix data = Inr ([], [])"
  by (simp add: getPrefixAndSuffix_def)

lemma getPrefixAndSuffix_space:
  assumes "find_last_of data (CHR '' '') \<noteq> npos"
  shows "getPrefixAndSuffix data =
    Inr (to_lower (take (find_first_of data (CHR '' '')) data),
         to_lower (take npos (drop (size_add (find_last_of data (CHR '' '')) 1) data)))"
proof -
  from assms have e: "find_last_of data (CHR '' '') < length data"
    by (rule find_last_of_bound)
  show ?thesis
    unfolding getPrefixAndSuffix_def Let_def substr_front substr_after[OF e]
    using assms by simp
qed

lemma getPrefixAndSuffix_total:
  "\<exists>p s. getPrefixAndSuffix data = Inr (p, s) \<and> length p \<le> length data \<and> length s \<le> length data"
proof (cases "find_last_of data (CHR '' '') = npos")
  case True
  then show ?thesis by (simp add: getPrefixAndSuffix_no_space)
next
  case False
  then show ?thesis by (simp add: getPrefixAndSuffix_space min_le_iff_disj)
qed

lemma checkForPrefixOrSuffixChange_total:
  "\<exists>b. checkForPrefixOrSuffixChange first second suffix_table = Inr b"
proof -
  obtain p1 s1 where f: "getPrefixAndSuffix first = Inr (p1, s1)" and l1: "length p1 \<le> length first"
    using getPrefixAndSuffix_total[of first] by blast
  obtain p2 s2 where s: "getPrefixAndSuffix second = Inr (p2, s2)" and l2: "length p2 \<le> length second"
    using getPrefixAndSuffix_total[of second] by blast
  have "\<exists>b. is_prefix_change_of first second (p1, s1) (p2, s2) suffix_table = Inr b"
    using l1 l2 by (auto simp: is_prefix_change_of_def compare_ok)
  moreover have "\<exists>b. is_suffix_change_of first second (p1, s1) (p2, s2) suffix_table = Inr b"
    by (auto simp: is_suffix_change_of_def compare_ok)
  ultimately show ?thesis
    using f s by (auto simp: checkForPrefixOrSuffixChange_def)
qed


lemma before_is_take:
  "takeWhile (\<lambda>x. x \<noteq> c) s = take (length (takeWhile (\<lambda>x. x \<noteq> c) s)) s"
  by (rule takeWhile_eq_take)

lemma after_is_drop:
  "tl (dropWhile (\<lambda>x. x \<noteq> c) s) = drop (Suc (length (takeWhile (\<lambda>x. x \<noteq> c) s))) s"
  by (simp add: dropWhile_eq_drop drop_Suc tl_drop)

lemma size_sub_wrap: "a < b \<Longrightarrow> b < 2 ^ 64 \<Longrightarrow> size_sub a b = 2 ^ 64 + a - b"
proof -
  assume lt: "a < b" and b: "b < 2 ^ 64"
  have ib: "int b < 2 ^ 64" using b by (metis of_nat_less_iff of_nat_numeral of_nat_power)
  have "(int a - int b) mod 2 ^ 64 = (int a - int b + 2 ^ 64) mod 2 ^ 64" by simp
  also have "\<dots> = int a - int b + 2 ^ 64"
    using lt ib by (intro mod_pos_pos_trivial) simp_all
  finally have "size_sub a b = nat (int a - int b + 2 ^ 64)" by (simp add: size_sub_def)
  also have "\<dots> = 2 ^ 64 + a - b" using lt b by (simp add: nat_add_distrib nat_diff_distrib nat_power_eq) 
  finally show ?thesis .
qed

lemma size_add_exact: "a + b < 2 ^ 64 \<Longrightarrow> size_add a b = a + b"
  by (simp add: size_add_def)

lemma split_name_reference:
  assumes len: "length name < npos"
    and par: "CHR ''('' \<in> set name"
  shows "split_name name out =
    Inr (if takeWhile (\<lambda>c. c \<noteq> CHR ''('') name \<noteq> []
         then butlast (takeWhile (\<lambda>c. c \<noteq> CHR ''('') name) else fst out,
         if CHR '')'' \<in> set (takeWhile (\<lambda>c. c \<noteq> CHR ''('') name)
         then tl (dropWhile (\<lambda>c. c \<noteq> CHR ''('') name)
         else takeWhile (\<lambda>c. c \<noteq> CHR '')'') (tl (dropWhile (\<lambda>c. c \<noteq> CHR ''('') name)))"
proof -
  let ?before = "takeWhile (\<lambda>c. c \<noteq> CHR ''('') name"
  let ?p = "length ?before"
  let ?after = "drop (Suc ?p) name"
  let ?q = "find_first_of name (CHR '')'')"
  have big: "length name < 2 ^ 64" using len by (simp add: npos_def)
  have p_lt: "?p < length name" using par by (rule takeWhile_stops)
  have fb: "find_first_of name (CHR ''('') = ?p" using par by (simp add: find_first_of_eq)
  have found: "find_first_of name (CHR ''('') \<noteq> npos" using fb p_lt len by simp
  have before: "?before = take ?p name" by (rule takeWhile_eq_take)
  have after: "tl (dropWhile (\<lambda>c. c \<noteq> CHR ''('') name) = ?after" by (rule after_is_drop)
  have at_p: "name ! ?p = CHR ''(''"
    using nth_length_takeWhile[OF p_lt] by simp
  have name_part: "take (size_sub ?p 1) name = butlast ?before" if "?p \<noteq> 0"
  proof -
    have "1 \<le> ?p" using that by (cases ?before) simp_all
    then have "size_sub ?p 1 = ?p - 1" using p_lt big by (intro size_sub_exact) linarith+
    moreover have "butlast (take ?p name) = take (?p - 1) name"
      using p_lt by (intro butlast_take) simp
    ultimately show ?thesis using before by simp
  qed
  have start: "size_add ?p 1 = Suc ?p" using p_lt big by (simp add: size_add_exact)
  have ref_part:
    "take (size_sub (size_sub ?q ?p) 1) ?after =
      (if CHR '')'' \<in> set ?before then ?after else takeWhile (\<lambda>c. c \<noteq> CHR '')'') ?after)"
  proof (cases "CHR '')'' \<in> set name")
    case False
    then have q: "?q = npos" by (simp add: find_first_of_eq)
    have "size_sub npos ?p = npos - ?p"
      using p_lt len by (intro size_sub_exact) (simp_all add: npos_def)
    moreover have "size_sub (npos - ?p) 1 = npos - ?p - 1"
      using p_lt len by (intro size_sub_exact) (simp_all add: npos_def)
    ultimately have "size_sub (size_sub ?q ?p) 1 = npos - ?p - 1" using q by simp
    moreover have "length ?after \<le> npos - ?p - 1" using len by simp
    ultimately have a: "take (size_sub (size_sub ?q ?p) 1) ?after = ?after" by simp
    have b: "CHR '')'' \<notin> set ?before" using False by (meson set_takeWhileD)
    have "CHR '')'' \<notin> set ?after" using False by (meson in_set_dropD)
    then have c: "takeWhile (\<lambda>c. c \<noteq> CHR '')'') ?after = ?after"
      by (auto simp: takeWhile_eq_all_conv)
    show ?thesis by (simp only: a b c if_False)
  next
    case True
    let ?t = "takeWhile (\<lambda>c. c \<noteq> CHR '')'') name"
    have q: "?q = length ?t" using True by (simp add: find_first_of_eq)
    have q_lt: "length ?t < length name" using True by (rule takeWhile_stops)
    have at_q: "name ! length ?t = CHR '')''"
      using nth_length_takeWhile[OF q_lt] by simp
    have ne: "length ?t \<noteq> ?p"
    proof
      assume "length ?t = ?p"
      with at_p at_q show False by simp
    qed
    show ?thesis
    proof (cases "length ?t < ?p")
      case True
      then have "take ?p name ! length ?t = name ! length ?t"
        and "length ?t < length (take ?p name)"
        using p_lt by simp_all
      then have "name ! length ?t \<in> set (take ?p name)" by (metis nth_mem)
      then have inb: "CHR '')'' \<in> set ?before" using at_q before by simp
      have "size_sub (length ?t) ?p = 2 ^ 64 + length ?t - ?p"
        using True p_lt big by (intro size_sub_wrap) simp_all
      moreover have "size_sub (2 ^ 64 + length ?t - ?p) 1 = 2 ^ 64 + length ?t - ?p - 1"
        using True p_lt big by (intro size_sub_exact) simp_all
      ultimately have "size_sub (size_sub ?q ?p) 1 = 2 ^ 64 + length ?t - ?p - 1"
        using q by simp
      moreover have "length ?after \<le> 2 ^ 64 + length ?t - ?p - 1" using big by simp
      ultimately have "take (size_sub (size_sub ?q ?p) 1) ?after = ?after" by simp
      with inb show ?thesis by simp
    next
      case False
      with ne have gt: "?p < length ?t" by simp
      have notin: "CHR '')'' \<notin> set (take (Suc ?p) name)"
      proof
        assume "CHR '')'' \<in> set (take (Suc ?p) name)"
        then obtain i where i: "i < Suc ?p" "i < length name" "name ! i = CHR '')''"
          by (auto simp: in_set_conv_nth)
        then have il: "i < length ?t" using gt by simp
        then have "?t ! i = name ! i" by (rule takeWhile_nth)
        moreover have "?t ! i \<in> set ?t" using il by (rule nth_mem)
        ultimately have "name ! i \<noteq> CHR '')''" using set_takeWhileD by fastforce
        with i show False by simp
      qed
      moreover have "set (take ?p name) \<subseteq> set (take (Suc ?p) name)"
        by (rule set_take_subset_set_take) simp
      ultimately have "CHR '')'' \<notin> set (take ?p name)" by blast
      then have nb: "CHR '')'' \<notin> set ?before" using before by simp
      have "?t = takeWhile (\<lambda>c. c \<noteq> CHR '')'') (take (Suc ?p) name @ ?after)" by simp
      also have "\<dots> = take (Suc ?p) name @ takeWhile (\<lambda>c. c \<noteq> CHR '')'') ?after"
        using notin by (intro takeWhile_append2) auto
      finally have eq: "?t = take (Suc ?p) name @ takeWhile (\<lambda>c. c \<noteq> CHR '')'') ?after" .
      have "length ?t = length (take (Suc ?p) name @ takeWhile (\<lambda>c. c \<noteq> CHR '')'') ?after)"
        by (rule arg_cong[where f = length, OF eq])
      then have "length ?t = Suc ?p + length (takeWhile (\<lambda>c. c \<noteq> CHR '')'') ?after)"
        using p_lt by simp
      then have cnt: "length (takeWhile (\<lambda>c. c \<noteq> CHR '')'') ?after) = length ?t - ?p - 1" by simp
      have "size_sub (length ?t) ?p = length ?t - ?p"
        using gt q_lt big by (intro size_sub_exact) simp_all
      moreover have "size_sub (length ?t - ?p) 1 = length ?t - ?p - 1"
        using gt q_lt big by (intro size_sub_exact) simp_all
      ultimately have "size_sub (size_sub ?q ?p) 1 = length ?t - ?p - 1" using q by simp
      then have "take (size_sub (size_sub ?q ?p) 1) ?after =
          take (length (takeWhile (\<lambda>c. c \<noteq> CHR '')'') ?after)) ?after"
        using cnt by simp
      also have "\<dots> = takeWhile (\<lambda>c. c \<noteq> CHR '')'') ?after"
        by (rule takeWhile_eq_take[symmetric])
      finally show ?thesis using nb by simp
    qed
  qed
  have "split_name name out =
      Inr (if ?p \<noteq> 0 then take (size_sub ?p 1) name else fst out,
           take (size_sub (size_sub ?q ?p) 1) (drop (size_add ?p 1) name))"
    using split_name_parenthesis[OF found, of out] unfolding fb by simp
  also have "\<dots> = Inr (if ?before \<noteq> [] then butlast ?before else fst out,
      if CHR '')'' \<in> set ?before then ?after else takeWhile (\<lambda>c. c \<noteq> CHR '')'') ?after)"
    using name_part ref_part start by (cases "?p = 0") simp_all
  finally show ?thesis unfolding after .
qed

subsection \<open>The announcement policy\<close>












subsection \<open>The parse of a raw name\<close>

text \<open>
  Claim C4, as the code has it. Without an opening parenthesis the whole string is the
  name and the reference is empty. With the first opening parenthesis after the first
  position, the name is the text before it without its last character, whichever
  character that is, and the reference is the text from there to the first closing
  parenthesis of the string, or to the end of the string when the string has no closing
  parenthesis or has its first one before the opening one. When the text before the
  parenthesis ends in a space and has no closing parenthesis, this is the parse of the
  spec's sentence.
\<close>

theorem split_name_parse:
  assumes "length name < npos"
  shows "(CHR ''('' \<notin> set name \<longrightarrow> split_name name ([], []) = Inr (name, [])) \<and>
    (CHR ''('' \<in> set name \<and> takeWhile (\<lambda>c. c \<noteq> CHR ''('') name \<noteq> [] \<longrightarrow>
       split_name name ([], []) =
         Inr (butlast (takeWhile (\<lambda>c. c \<noteq> CHR ''('') name),
              if CHR '')'' \<in> set (takeWhile (\<lambda>c. c \<noteq> CHR ''('') name)
              then tl (dropWhile (\<lambda>c. c \<noteq> CHR ''('') name)
              else takeWhile (\<lambda>c. c \<noteq> CHR '')'')
                     (tl (dropWhile (\<lambda>c. c \<noteq> CHR ''('') name)))) \<and>
    (CHR ''('' \<in> set name \<and> takeWhile (\<lambda>c. c \<noteq> CHR ''('') name \<noteq> [] \<and>
     last (takeWhile (\<lambda>c. c \<noteq> CHR ''('') name) = CHR '' '' \<and>
     CHR '')'' \<notin> set (takeWhile (\<lambda>c. c \<noteq> CHR ''('') name) \<longrightarrow>
       split_name name ([], []) = Inr (spec_parse name))"
proof (intro conjI impI)
  assume "CHR ''('' \<notin> set name"
  then have "find_first_of name (CHR ''('') = npos" by (simp add: find_first_of_eq)
  then show "split_name name ([], []) = Inr (name, [])"
    by (simp add: split_name_no_parenthesis)
next
  assume "CHR ''('' \<in> set name \<and> takeWhile (\<lambda>c. c \<noteq> CHR ''('') name \<noteq> []"
  then show "split_name name ([], []) =
         Inr (butlast (takeWhile (\<lambda>c. c \<noteq> CHR ''('') name),
              if CHR '')'' \<in> set (takeWhile (\<lambda>c. c \<noteq> CHR ''('') name)
              then tl (dropWhile (\<lambda>c. c \<noteq> CHR ''('') name)
              else takeWhile (\<lambda>c. c \<noteq> CHR '')'')
                     (tl (dropWhile (\<lambda>c. c \<noteq> CHR ''('') name)))"
    using split_name_reference[OF assms, of "([], [])"] by simp
next
  assume a: "CHR ''('' \<in> set name \<and> takeWhile (\<lambda>c. c \<noteq> CHR ''('') name \<noteq> [] \<and>
     last (takeWhile (\<lambda>c. c \<noteq> CHR ''('') name) = CHR '' '' \<and>
     CHR '')'' \<notin> set (takeWhile (\<lambda>c. c \<noteq> CHR ''('') name)"
  then show "split_name name ([], []) = Inr (spec_parse name)"
    using split_name_reference[OF assms, of "([], [])"]
    by (simp add: spec_parse_def trim_one_trailing_space_def)
qed

theorem split_name_parse_witness:
  "split_name ''Main Street'' ([], []) = Inr (''Main Street'', []) \<and>
   split_name ''Main Street (A1)'' ([], []) = Inr (''Main Street'', ''A1'') \<and>
   split_name ''Main Street (A1)'' ([], []) = Inr (spec_parse ''Main Street (A1)'')"
proof -
  have "length ''Main Street'' < npos" and "length ''Main Street (A1)'' < npos"
    by (simp_all add: npos_def)
  from split_name_parse[OF this(1)] split_name_parse[OF this(2)]
  show ?thesis by (simp add: spec_parse_def trim_one_trailing_space_def)
qed

text \<open>
  The claim as the spec states it fails where the character before the parenthesis is
  not a space: of \<open>Main(A1)\<close> the code keeps \<open>Mai\<close>, the spec's parse keeps \<open>Main\<close>.
\<close>

theorem split_name_drops_any_last_character:
  "split_name ''Main(A1)'' ([], []) = Inr (''Mai'', ''A1'') \<and>
   spec_parse ''Main(A1)'' = (''Main'', ''A1'')"
  by (simp add: split_name_def find_first_of_def substr_def size_sub_def size_add_def npos_def
      spec_parse_def trim_one_trailing_space_def)

subsection \<open>Prefix and suffix changes\<close>

text \<open>
  What holds of the signal: when it is true, the first or the last token of the first
  name is empty or in the suffix table, and the two names agree after that token of each
  is stripped. The tokens of the second name are stripped and never looked up.
\<close>

lemma checkForPrefixOrSuffixChange_true:
  assumes "length first < npos" and "length second < npos"
    and f: "getPrefixAndSuffix first = Inr (p1, s1)"
    and s: "getPrefixAndSuffix second = Inr (p2, s2)"
    and c: "checkForPrefixOrSuffixChange first second suffix_table = Inr True"
  shows "(checkTable suffix_table p1 \<and> drop (length p1) first = drop (length p2) second) \<or>
         (checkTable suffix_table s1 \<and>
          take (length first - length s1) first = take (length second - length s2) second)"
proof -
  have big: "length first < 2 ^ 64" "length second < 2 ^ 64"
    using assms(1,2) by (simp_all add: npos_def)
  have l1: "length p1 \<le> length first" "length s1 \<le> length first"
    using getPrefixAndSuffix_total[of first] f by auto
  have l2: "length p2 \<le> length second" "length s2 \<le> length second"
    using getPrefixAndSuffix_total[of second] s by auto
  have all1: "take npos (drop (length p1) first) = drop (length p1) first"
    using assms(1) by simp
  have all2: "take npos (drop (length p2) second) = drop (length p2) second"
    using assms(2) by simp
  have pre: "is_prefix_change_of first second (p1, s1) (p2, s2) suffix_table =
      Inr (checkTable suffix_table p1 \<and> drop (length p1) first = drop (length p2) second)"
    using l1 l2 by (simp add: is_prefix_change_of_def compare_ok compare_chars_eq all1 all2)
  have suf: "is_suffix_change_of first second (p1, s1) (p2, s2) suffix_table =
      Inr (checkTable suffix_table s1 \<and>
           take (length first - length s1) first = take (length second - length s2) second)"
    using l1 l2 big
    by (simp add: is_suffix_change_of_def compare_ok compare_chars_eq size_sub_exact)
  from c show ?thesis
    by (simp add: checkForPrefixOrSuffixChange_def f s pre suf)
qed

text \<open>
  Claim C3 says that the signal \<open>is_suffix_change\<close> is never true when the stripped token
  of the second name is non-empty and absent from the suffix table. On the code it is:
  both guards of each inner test look at the token of the first name, so from
  \<open>Main Street\<close> to \<open>Main Foo\<close>, with only \<open>street\<close> in the table, the signal is true, and
  the name change is not announced.
\<close>

theorem checkForPrefixOrSuffixChange_ignores_second_token:
  "getPrefixAndSuffix ''Main Foo'' = Inr (''main'', ''foo'') \<and>
   \<not> checkTable {''street''} ''foo'' \<and>
   checkForPrefixOrSuffixChange ''Main Street'' ''Main Foo'' {''street''} = Inr True \<and>
   requiresNameAnnounced ''Main Street'' ''Main Foo'' {''street''} = Inr False"
  by (simp add: requiresNameAnnounced_def obvious_change_def split_name_def
      checkForPrefixOrSuffixChange_def getPrefixAndSuffix_def find_first_of_def
      find_last_of_def find_string_def substr_def size_sub_def size_add_def npos_def
      to_lower_def to_lower_char_def char_of_eq_iff is_prefix_change_of_def
      is_suffix_change_of_def checkTable_def isSuffix_def compare_def)

end
